theory Spec2Isabelle
  imports Main
begin

section \<open>Go strings, runes and UTF-8\<close>

text \<open>
  A Go \<^verbatim>\<open>string\<close> is a sequence of bytes; \<^verbatim>\<open>len\<close> counts bytes and \<^verbatim>\<open>s[i]\<close> reads one
  byte. The model takes \<^typ>\<open>string\<close> (a list of 8-bit \<^typ>\<open>char\<close>) for it, so a letter
  outside ASCII is the two, three or four bytes of its UTF-8 encoding. A rune is a code
  point; the runes met here are never negative, so they are natural numbers.
\<close>

type_synonym rune = nat

abbreviation byte :: "char \<Rightarrow> nat" where
  "byte \<equiv> of_char"

abbreviation chr :: "nat \<Rightarrow> char" where
  "chr \<equiv> char_of"

definition RuneError :: rune where
  "RuneError = 0xFFFD"

definition MaxRune :: rune where
  "MaxRune = 0x10FFFF"

text \<open>
  \<^verbatim>\<open>utf8.first\<close> and \<^verbatim>\<open>utf8.acceptRanges\<close>: the length of the sequence a lead byte
  \<^verbatim>\<open>0xC2..0xF4\<close> starts, and the range its second byte must lie in.
\<close>

definition seq_size :: "nat \<Rightarrow> nat" where
  "seq_size s0 = (if s0 < 0xE0 then 2 else if s0 < 0xF0 then 3 else 4)"

definition accept_lo :: "nat \<Rightarrow> nat" where
  "accept_lo s0 = (if s0 = 0xE0 then 0xA0 else if s0 = 0xF0 then 0x90 else 0x80)"

definition accept_hi :: "nat \<Rightarrow> nat" where
  "accept_hi s0 = (if s0 = 0xED then 0x9F else if s0 = 0xF4 then 0x8F else 0xBF)"

text \<open>
  \<^verbatim>\<open>utf8.DecodeRuneInString\<close>: the first rune of the string and its width in bytes;
  \<^verbatim>\<open>(RuneError, 0)\<close> on the empty string and \<^verbatim>\<open>(RuneError, 1)\<close> on a byte that starts
  no well-formed sequence (overlong forms, surrogates and values above \<^verbatim>\<open>MaxRune\<close>
  are not well formed).
\<close>

fun DecodeRuneInString :: "string \<Rightarrow> rune \<times> nat" where
  "DecodeRuneInString [] = (RuneError, 0)"
| "DecodeRuneInString (c0 # s) =
    (let s0 = byte c0 in
     if s0 < 0x80 then (s0, 1)
     else if s0 < 0xC2 \<or> 0xF4 < s0 then (RuneError, 1)
     else if length s + 1 < seq_size s0 then (RuneError, 1)
     else
       let s1 = byte (s ! 0) in
       if s1 < accept_lo s0 \<or> accept_hi s0 < s1 then (RuneError, 1)
       else if seq_size s0 \<le> 2 then ((s0 mod 32) * 64 + s1 mod 64, 2)
       else
         let s2 = byte (s ! 1) in
         if s2 < 0x80 \<or> 0xBF < s2 then (RuneError, 1)
         else if seq_size s0 \<le> 3 then ((s0 mod 16) * 4096 + (s1 mod 64) * 64 + s2 mod 64, 3)
         else
           let s3 = byte (s ! 2) in
           if s3 < 0x80 \<or> 0xBF < s3 then (RuneError, 1)
           else ((s0 mod 8) * 262144 + (s1 mod 64) * 4096 + (s2 mod 64) * 64 + s3 mod 64, 4))"

lemma DecodeRuneInString_width:
  "s \<noteq> [] \<Longrightarrow> 1 \<le> snd (DecodeRuneInString s) \<and> snd (DecodeRuneInString s) \<le> length s"
  by (cases s) (auto simp: Let_def seq_size_def Suc_le_eq)

declare DecodeRuneInString.simps(2) [simp del]

text \<open>
  \<^verbatim>\<open>utf8.AppendRune\<close> (behind \<^verbatim>\<open>strings.Builder.WriteRune\<close> and the conversion
  \<^verbatim>\<open>string(r)\<close>): the UTF-8 encoding of a rune, that of \<^verbatim>\<open>RuneError\<close> for a surrogate or
  a value above \<^verbatim>\<open>MaxRune\<close>.
\<close>

definition EncodeRune :: "rune \<Rightarrow> string" where
  "EncodeRune r =
    (if r \<le> 0x7F then [chr r]
     else if r \<le> 0x7FF then [chr (0xC0 + r div 64), chr (0x80 + r mod 64)]
     else if MaxRune < r \<or> (0xD800 \<le> r \<and> r \<le> 0xDFFF) then [chr 0xEF, chr 0xBF, chr 0xBD]
     else if r \<le> 0xFFFF then
       [chr (0xE0 + r div 4096), chr (0x80 + (r div 64) mod 64), chr (0x80 + r mod 64)]
     else
       [chr (0xF0 + r div 262144), chr (0x80 + (r div 4096) mod 64),
        chr (0x80 + (r div 64) mod 64), chr (0x80 + r mod 64)])"

text \<open>
  The runes of a string, as \<^verbatim>\<open>for _, c := range s\<close> yields them: every byte that starts
  no well-formed sequence counts as one \<^verbatim>\<open>RuneError\<close>.
\<close>

function runes :: "string \<Rightarrow> rune list" where
  "runes s =
    (if s = [] then []
     else fst (DecodeRuneInString s) # runes (drop (snd (DecodeRuneInString s)) s))"
  by pat_completeness auto
termination
proof (relation "measure length")
  show "wf (measure length)" by simp
next
  fix s :: string
  assume "s \<noteq> []"
  then have "1 \<le> snd (DecodeRuneInString s)"
    using DecodeRuneInString_width by blast
  with \<open>s \<noteq> []\<close> show "(drop (snd (DecodeRuneInString s)) s, s) \<in> measure length"
    by (cases s) auto
qed

declare runes.simps [simp del]

text \<open>\<^verbatim>\<open>utf8.RuneCountInString\<close>: the number of runes, an ill-formed byte counting as one.\<close>

definition RuneCountInString :: "string \<Rightarrow> nat" where
  "RuneCountInString s = length (runes s)"

text \<open>
  \<^verbatim>\<open>utf8.ValidString\<close>: the string is well-formed UTF-8, that is, decoding it never meets
  a byte that starts no well-formed sequence (\<^verbatim>\<open>RuneError\<close> of width 1).
\<close>

function ValidString :: "string \<Rightarrow> bool" where
  "ValidString s =
    (if s = [] then True
     else if DecodeRuneInString s = (RuneError, 1) then False
     else ValidString (drop (snd (DecodeRuneInString s)) s))"
  by pat_completeness auto
termination
proof (relation "measure length")
  show "wf (measure length)" by simp
next
  fix s :: string
  assume "s \<noteq> []"
  then have "1 \<le> snd (DecodeRuneInString s)"
    using DecodeRuneInString_width by blast
  with \<open>s \<noteq> []\<close> show "(drop (snd (DecodeRuneInString s)) s, s) \<in> measure length"
    by (cases s) auto
qed

declare ValidString.simps [simp del]


section \<open>The \<^verbatim>\<open>unicode\<close> package\<close>

text \<open>
  The case tables of the \<^verbatim>\<open>unicode\<close> package (\<^verbatim>\<open>CaseRanges\<close>, \<^verbatim>\<open>caseOrbit\<close>) are data of
  the Go distribution and are taken as a parameter: \<open>tab_lower\<close> and \<open>tab_upper\<close> are
  \<^verbatim>\<open>unicode.To(LowerCase, r)\<close> and \<^verbatim>\<open>unicode.To(UpperCase, r)\<close>, consulted for runes above
  \<^verbatim>\<open>MaxASCII\<close> only, and \<open>tab_fold sr tr\<close> is the outcome of the orbit walk
  \<^verbatim>\<open>r := SimpleFold(sr); for r != sr && r < tr { r = SimpleFold(r) }; r == tr\<close> that
  \<^verbatim>\<open>strings.EqualFold\<close> runs on two different runes \<^verbatim>\<open>sr < tr\<close> of which \<^verbatim>\<open>tr\<close> is not ASCII.
  What Go itself fixes in code (the ASCII branches, white space) is modelled as written.
\<close>

record unicode_tables =
  tab_lower :: "rune \<Rightarrow> rune"
  tab_upper :: "rune \<Rightarrow> rune"
  tab_fold :: "rune \<Rightarrow> rune \<Rightarrow> bool"

definition unicode_ToLower :: "unicode_tables \<Rightarrow> rune \<Rightarrow> rune" where
  "unicode_ToLower T r =
    (if r \<le> 0x7F then (if 0x41 \<le> r \<and> r \<le> 0x5A then r + 32 else r) else tab_lower T r)"

definition unicode_ToUpper :: "unicode_tables \<Rightarrow> rune \<Rightarrow> rune" where
  "unicode_ToUpper T r =
    (if r \<le> 0x7F then (if 0x61 \<le> r \<and> r \<le> 0x7A then r - 32 else r) else tab_upper T r)"

text \<open>
  \<^verbatim>\<open>unicode.IsSpace\<close>: the Latin-1 spaces are a \<^verbatim>\<open>switch\<close> in the code, the others the table
  \<^verbatim>\<open>White_Space\<close>.
\<close>

definition unicode_IsSpace :: "rune \<Rightarrow> bool" where
  "unicode_IsSpace r =
    (if r \<le> 0xFF then r = 9 \<or> r = 10 \<or> r = 11 \<or> r = 12 \<or> r = 13 \<or> r = 0x20 \<or> r = 0x85 \<or> r = 0xA0
     else r = 0x1680 \<or> (0x2000 \<le> r \<and> r \<le> 0x200A) \<or> r = 0x2028 \<or> r = 0x2029 \<or> r = 0x202F
       \<or> r = 0x205F \<or> r = 0x3000)"

text \<open>
  The rows of the tables for the runes up to \<^verbatim>\<open>U+00FF\<close> (ASCII and Latin-1, which covers
  Portuguese); above \<^verbatim>\<open>U+00FF\<close> this excerpt leaves a rune unchanged. It is the table of the
  evaluations at concrete inputs; every general theorem holds for any table.
\<close>

definition latin1_upper_range :: "rune \<Rightarrow> bool" where
  "latin1_upper_range r = ((0xC0 \<le> r \<and> r \<le> 0xD6) \<or> (0xD8 \<le> r \<and> r \<le> 0xDE))"

definition latin1 :: unicode_tables where
  "latin1 =
    \<lparr> tab_lower = (\<lambda>r. if latin1_upper_range r then r + 32 else r),
      tab_upper = (\<lambda>r. if latin1_upper_range (r - 32) \<and> 0xE0 \<le> r then r - 32
                        else if r = 0xFF then 0x178 else if r = 0xB5 then 0x39C else r),
      tab_fold = (\<lambda>sr tr.
        (latin1_upper_range sr \<and> tr = sr + 32)
        \<or> ((sr = 0x4B \<or> sr = 0x6B) \<and> tr = 0x212A)
        \<or> ((sr = 0x53 \<or> sr = 0x73) \<and> tr = 0x17F)
        \<or> (sr = 0xB5 \<and> (tr = 0x39C \<or> tr = 0x3BC))
        \<or> ((sr = 0xC5 \<or> sr = 0xE5) \<and> tr = 0x212B)
        \<or> (sr = 0xDF \<and> tr = 0x1E9E)
        \<or> (sr = 0xFF \<and> tr = 0x178)) \<rparr>"

section \<open>The \<^verbatim>\<open>strings\<close> package\<close>

text \<open>
  \<^verbatim>\<open>strings.Map\<close>: every rune of the string replaced by its image, an ill-formed byte by
  the image of \<^verbatim>\<open>RuneError\<close>. (The mappings used here return no negative rune, which
  \<^verbatim>\<open>Map\<close> would drop.)
\<close>

definition strings_Map :: "(rune \<Rightarrow> rune) \<Rightarrow> string \<Rightarrow> string" where
  "strings_Map mapping s = concat (map (\<lambda>c. EncodeRune (mapping c)) (runes s))"

definition isASCII :: "string \<Rightarrow> bool" where
  "isASCII s = list_all (\<lambda>c. byte c < 0x80) s"

definition lowerByte :: "char \<Rightarrow> char" where
  "lowerByte c = (if 0x41 \<le> byte c \<and> byte c \<le> 0x5A then chr (byte c + 32) else c)"

definition upperByte :: "char \<Rightarrow> char" where
  "upperByte c = (if 0x61 \<le> byte c \<and> byte c \<le> 0x7A then chr (byte c - 32) else c)"

text \<open>
  \<^verbatim>\<open>strings.ToLower\<close> and \<^verbatim>\<open>strings.ToUpper\<close>: byte by byte on an all-ASCII string, else
  \<^verbatim>\<open>Map(unicode.ToLower, s)\<close>, which also rewrites every ill-formed byte to \<^verbatim>\<open>U+FFFD\<close>.
\<close>

definition ToLower :: "unicode_tables \<Rightarrow> string \<Rightarrow> string" where
  "ToLower T s = (if isASCII s then map lowerByte s else strings_Map (unicode_ToLower T) s)"

definition ToUpper :: "unicode_tables \<Rightarrow> string \<Rightarrow> string" where
  "ToUpper T s = (if isASCII s then map upperByte s else strings_Map (unicode_ToUpper T) s)"

text \<open>
  \<^verbatim>\<open>strings.TrimLeftFunc\<close>: the string from its first rune that does not satisfy \<open>f\<close>.
\<close>

function TrimLeftFunc :: "(rune \<Rightarrow> bool) \<Rightarrow> string \<Rightarrow> string" where
  "TrimLeftFunc f s =
    (if s = [] then []
     else if f (fst (DecodeRuneInString s)) then TrimLeftFunc f (drop (snd (DecodeRuneInString s)) s)
     else s)"
  by pat_completeness auto
termination
proof (relation "measure (\<lambda>(f, s). length s)")
  show "wf (measure (\<lambda>(f :: rune \<Rightarrow> bool, s :: string). length s))" by simp
next
  fix f :: "rune \<Rightarrow> bool" and s :: string
  assume "s \<noteq> []"
  then have "1 \<le> snd (DecodeRuneInString s)"
    using DecodeRuneInString_width by blast
  with \<open>s \<noteq> []\<close>
  show "((f, drop (snd (DecodeRuneInString s)) s), (f, s)) \<in> measure (\<lambda>(f, s). length s)"
    by (cases s) auto
qed

declare TrimLeftFunc.simps [simp del]

text \<open>
  \<^verbatim>\<open>utf8.RuneStart\<close> and \<^verbatim>\<open>utf8.DecodeLastRuneInString\<close>: the last rune of the string and its
  width. The scan goes back at most \<^verbatim>\<open>UTFMax\<close> bytes to a byte that can start a rune.
\<close>

definition RuneStart :: "nat \<Rightarrow> bool" where
  "RuneStart b = (b div 64 \<noteq> 2)"

function scan_back :: "string \<Rightarrow> int \<Rightarrow> int \<Rightarrow> int" where
  "scan_back s lim start =
    (if lim \<le> start then
       (if RuneStart (byte (s ! nat start)) then start else scan_back s lim (start - 1))
     else start)"
  by pat_completeness auto
termination
  by (relation "measure (\<lambda>(s, lim, start). nat (start - lim + 1))") auto

declare scan_back.simps [simp del]

definition DecodeLastRuneInString :: "string \<Rightarrow> rune \<times> nat" where
  "DecodeLastRuneInString s =
    (let n = length s in
     if n = 0 then (RuneError, 0)
     else
       let r = byte (s ! (n - 1)) in
       if r < 0x80 then (r, 1)
       else
         let lim = max 0 (int n - 4);
             start = max 0 (scan_back s lim (int n - 2));
             d = DecodeRuneInString (drop (nat start) s)
         in if nat start + snd d \<noteq> n then (RuneError, 1) else d)"

text \<open>
  \<^verbatim>\<open>strings.TrimRightFunc\<close>, over \<^verbatim>\<open>lastIndexFunc(s, f, false)\<close>: the index of the last rune
  that does not satisfy \<open>f\<close>, or \<open>-1\<close>.
\<close>

lemma scan_back_le: "scan_back s lim start \<le> start"
proof (induction s lim start rule: scan_back.induct)
  case (1 s lim start)
  show ?case
  proof (cases "lim \<le> start \<and> \<not> RuneStart (byte (s ! nat start))")
    case True
    with "1.IH" have "scan_back s lim (start - 1) \<le> start - 1" by simp
    with True show ?thesis by (subst scan_back.simps) simp
  next
    case False
    then show ?thesis by (subst scan_back.simps) auto
  qed
qed

lemma DecodeLastRuneInString_width:
  "s \<noteq> [] \<Longrightarrow> 1 \<le> snd (DecodeLastRuneInString s) \<and> snd (DecodeLastRuneInString s) \<le> length s"
proof -
  assume ne: "s \<noteq> []"
  let ?n = "length s"
  let ?start = "max 0 (scan_back s (max 0 (int ?n - 4)) (int ?n - 2))"
  let ?d = "DecodeRuneInString (drop (nat ?start) s)"
  show ?thesis
  proof (cases "byte (s ! (?n - 1)) < 0x80 \<or> nat ?start + snd ?d \<noteq> ?n")
    case True
    with ne show ?thesis
      by (auto simp: DecodeLastRuneInString_def Let_def Suc_le_eq)
  next
    case False
    then have eq: "nat ?start + snd ?d = ?n" and hi: "\<not> byte (s ! (?n - 1)) < 0x80" by auto
    have "snd ?d \<le> ?n" using eq by linarith
    moreover have "1 \<le> snd ?d"
    proof (cases "drop (nat ?start) s = []")
      case True
      then have "snd ?d = 0" by simp
      moreover have "scan_back s (max 0 (int ?n - 4)) (int ?n - 2) \<le> int ?n - 2"
        by (rule scan_back_le)
      ultimately show ?thesis using eq ne by (cases s) auto
    next
      case False
      then show ?thesis using DecodeRuneInString_width by blast
    qed
    ultimately show ?thesis
      using ne hi eq by (simp add: DecodeLastRuneInString_def Let_def)
  qed
qed

function lastIndexFunc :: "(rune \<Rightarrow> bool) \<Rightarrow> string \<Rightarrow> int" where
  "lastIndexFunc f s =
    (if s = [] then - 1
     else if \<not> f (fst (DecodeLastRuneInString s)) then int (length s - snd (DecodeLastRuneInString s))
     else lastIndexFunc f (take (length s - snd (DecodeLastRuneInString s)) s))"
  by pat_completeness auto
termination
proof (relation "measure (\<lambda>(f, s). length s)")
  show "wf (measure (\<lambda>(f :: rune \<Rightarrow> bool, s :: string). length s))" by simp
next
  fix f :: "rune \<Rightarrow> bool" and s :: string
  assume "s \<noteq> []"
  then have "1 \<le> snd (DecodeLastRuneInString s)"
    using DecodeLastRuneInString_width by blast
  with \<open>s \<noteq> []\<close>
  show "((f, take (length s - snd (DecodeLastRuneInString s)) s), (f, s)) \<in> measure (\<lambda>(f, s). length s)"
    by (cases s) auto
qed

declare lastIndexFunc.simps [simp del]

definition TrimRightFunc :: "(rune \<Rightarrow> bool) \<Rightarrow> string \<Rightarrow> string" where
  "TrimRightFunc f s =
    (let i = lastIndexFunc f s in
     if 0 \<le> i \<and> 0x80 \<le> byte (s ! nat i)
     then take (nat i + snd (DecodeRuneInString (drop (nat i) s))) s
     else take (nat (i + 1)) s)"

definition TrimFunc :: "(rune \<Rightarrow> bool) \<Rightarrow> string \<Rightarrow> string" where
  "TrimFunc f s = TrimRightFunc f (TrimLeftFunc f s)"

text \<open>
  \<^verbatim>\<open>strings.TrimSpace\<close>: ASCII spaces are cut from the start, then from the end; at the
  first byte outside ASCII met on either side, the rest is left to \<^verbatim>\<open>TrimFunc\<close> (from the
  start) or \<^verbatim>\<open>TrimRightFunc\<close> (from the end) with \<^verbatim>\<open>unicode.IsSpace\<close>.
\<close>

definition asciiSpace :: "nat \<Rightarrow> bool" where
  "asciiSpace c = (c = 9 \<or> c = 10 \<or> c = 11 \<or> c = 12 \<or> c = 13 \<or> c = 32)"

function trim_stop :: "string \<Rightarrow> string" where
  "trim_stop s =
    (if s = [] then []
     else if 0x80 \<le> byte (last s) then TrimRightFunc unicode_IsSpace s
     else if asciiSpace (byte (last s)) then trim_stop (butlast s)
     else s)"
  by pat_completeness auto
termination
  by (relation "measure length") auto

declare trim_stop.simps [simp del]

fun TrimSpace :: "string \<Rightarrow> string" where
  "TrimSpace [] = []"
| "TrimSpace (c # s) =
    (if 0x80 \<le> byte c then TrimFunc unicode_IsSpace (c # s)
     else if asciiSpace (byte c) then TrimSpace s
     else trim_stop (c # s))"

text \<open>
  \<^verbatim>\<open>strings.Split(s, sep)\<close> for a separator of one byte (the program splits on \<^verbatim>\<open>"-"\<close>):
  the parts between the separators, always at least one.
\<close>

fun Split :: "string \<Rightarrow> char \<Rightarrow> string list" where
  "Split [] sep = [[]]"
| "Split (c # s) sep =
    (if c = sep then [] # Split s sep
     else (c # hd (Split s sep)) # tl (Split s sep))"

text \<open>
  \<^verbatim>\<open>strings.EqualFold\<close>: equality of the runes of two strings under simple case folding.
  Two different runes fold together when both are ASCII and differ by the case of a
  letter, or else when the orbit walk of the tables says so.
\<close>

definition fold_eq :: "unicode_tables \<Rightarrow> rune \<Rightarrow> rune \<Rightarrow> bool" where
  "fold_eq T a b =
    (if a = b then True
     else
       let sr = min a b; tr = max a b in
       if tr < 0x80 then 0x41 \<le> sr \<and> sr \<le> 0x5A \<and> tr = sr + 32
       else tab_fold T sr tr)"

function EqualFold_runes :: "unicode_tables \<Rightarrow> string \<Rightarrow> string \<Rightarrow> bool" where
  "EqualFold_runes T s t =
    (if s = [] then t = []
     else if t = [] then False
     else
       let sr = fst (DecodeRuneInString s);
           (tr, size) = (if byte (hd t) < 0x80 then (byte (hd t), 1) else DecodeRuneInString t)
       in if fold_eq T sr tr then EqualFold_runes T (drop (snd (DecodeRuneInString s)) s) (drop size t)
          else False)"
  by pat_completeness auto
termination
proof (relation "measure (\<lambda>(T, s, t). length s)")
  show "wf (measure (\<lambda>(T :: unicode_tables, s :: string, t :: string). length s))" by simp
next
  fix T :: unicode_tables and s t :: string and sr :: rune and x :: "rune \<times> nat" and tr size
  assume "s \<noteq> []"
  then have "1 \<le> snd (DecodeRuneInString s)"
    using DecodeRuneInString_width by blast
  with \<open>s \<noteq> []\<close>
  show "((T, drop (snd (DecodeRuneInString s)) s, drop size t), (T, s, t))
      \<in> measure (\<lambda>(T, s, t). length s)"
    by (cases s) auto
qed

declare EqualFold_runes.simps [simp del]

fun EqualFold :: "unicode_tables \<Rightarrow> string \<Rightarrow> string \<Rightarrow> bool" where
  "EqualFold T [] t = (t = [])"
| "EqualFold T (c # s) [] = False"
| "EqualFold T (c # s) (d # t) =
    (if 0x80 \<le> byte c \<or> 0x80 \<le> byte d then EqualFold_runes T (c # s) (d # t)
     else if d = c then EqualFold T s t
     else
       let sr = min (byte c) (byte d); tr = max (byte c) (byte d) in
       if 0x41 \<le> sr \<and> sr \<le> 0x5A \<and> tr = sr + 32 then EqualFold T s t else False)"

definition HasPrefix :: "string \<Rightarrow> string \<Rightarrow> bool" where
  "HasPrefix s p = (length p \<le> length s \<and> take (length p) s = p)"

fun Join :: "string list \<Rightarrow> string \<Rightarrow> string" where
  "Join [] sep = []"
| "Join [x] sep = x"
| "Join (x # y # ys) sep = x @ sep @ Join (y # ys) sep"

definition Repeat :: "string \<Rightarrow> nat \<Rightarrow> string" where
  "Repeat s n = concat (replicate n s)"


section \<open>The program: \<^verbatim>\<open>cmd/tpsp/main.go\<close>\<close>

subsection \<open>Data\<close>

definition programName :: string where
  "programName = ''tpsp''"

definition programVersion :: string where
  "programVersion = ''2.0.0''"

definition programDescription :: string where
  "programDescription = ''CLI for Sao Paulo public transportation line status''"

definition programURL :: string where
  "programURL = ''https://github.com/caian-org/tpsp''"

definition validServices :: "string list" where
  "validServices = [''metro'', ''cptm'', ''viamobilidade'', ''viaquatro'']"

record LineItem =
  ID :: string
  Line :: string
  Color :: string
  Status :: string
  StatusColor :: string
  Description :: string
  Code :: string

record ServiceData =
  ListItem :: "LineItem list"
  DateUpdate :: string
  Type :: string

text \<open>
  \<^verbatim>\<open>APIResponse\<close>, \<^verbatim>\<open>OutputResponse\<close> and \<^verbatim>\<open>OutputLine\<close>; their fields carry a prefix, since
  a record field is a constant and \<^verbatim>\<open>Status\<close>, \<^verbatim>\<open>Data\<close>, \<^verbatim>\<open>Line\<close> and \<^verbatim>\<open>Code\<close> name fields of
  several structs.
\<close>

record APIResponse =
  api_Status :: bool
  api_Data :: "ServiceData list"

record OutputLine =
  out_Line :: string
  out_Status :: string

record OutputResponse =
  out_Code :: int
  out_Data :: "OutputLine list"
  out_Message :: string

definition colorReset :: string where
  "colorReset = CHR 0x1B # ''[0m''"

definition colorBold :: string where
  "colorBold = CHR 0x1B # ''[1m''"

definition colorDim :: string where
  "colorDim = CHR 0x1B # ''[2m''"

definition colorGreen :: string where
  "colorGreen = CHR 0x1B # ''[32m''"

definition colorYellow :: string where
  "colorYellow = CHR 0x1B # ''[33m''"

definition colorRed :: string where
  "colorRed = CHR 0x1B # ''[31m''"

subsection \<open>The string transforms\<close>

definition getColorForStatus :: "unicode_tables \<Rightarrow> string \<Rightarrow> string" where
  "getColorForStatus T statusColor =
    (let l = ToLower T statusColor in
     if l = ''verde'' then colorGreen
     else if l = ''amarelo'' then colorYellow
     else if l = ''vermelho'' then colorRed
     else if l = ''cinza'' then colorDim
     else colorReset)"

text \<open>
  \<^verbatim>\<open>formatLineName\<close>. \<^verbatim>\<open>name[0]\<close> is the first byte of the name and \<^verbatim>\<open>string(name[0])\<close> the
  UTF-8 encoding of the rune with that byte's value; \<^verbatim>\<open>name[1:]\<close> is the name from its
  second byte. \<^verbatim>\<open>parts[len(parts)-1]\<close> is in range, \<^verbatim>\<open>Split\<close> returning at least one part.
\<close>

definition formatLineName :: "unicode_tables \<Rightarrow> string \<Rightarrow> string" where
  "formatLineName T line =
    (let parts = Split line CHR ''-'';
         name = TrimSpace (parts ! (length parts - 1))
     in if length name = 0 then name
        else ToUpper T (EncodeRune (byte (name ! 0))) @ ToLower T (drop 1 name))"

text \<open>
  The literals of \<^verbatim>\<open>normalizeStatus\<close> as the bytes of the source file:
  \<^verbatim>\<open>c3 a7\<close> is c-cedilla, \<^verbatim>\<open>c3 b5\<close> o-tilde and \<^verbatim>\<open>c3 a3\<close> a-tilde.
\<close>

definition operacoes_encerradas :: string where
  "operacoes_encerradas = ''opera'' @ [CHR 0xC3, CHR 0xA7, CHR 0xC3, CHR 0xB5] @ ''es encerradas''"

definition operacoes_normais :: string where
  "operacoes_normais = ''opera'' @ [CHR 0xC3, CHR 0xA7, CHR 0xC3, CHR 0xB5] @ ''es normais''"

definition Operacao_Encerrada :: string where
  "Operacao_Encerrada = ''Opera'' @ [CHR 0xC3, CHR 0xA7, CHR 0xC3, CHR 0xA3] @ ''o Encerrada''"

definition Operacao_Normal :: string where
  "Operacao_Normal = ''Opera'' @ [CHR 0xC3, CHR 0xA7, CHR 0xC3, CHR 0xA3] @ ''o Normal''"

definition normalizeStatus :: "unicode_tables \<Rightarrow> string \<Rightarrow> string" where
  "normalizeStatus T status0 =
    (let status = TrimSpace status0; l = ToLower T status in
     if l = operacoes_encerradas then Operacao_Encerrada
     else if l = operacoes_normais then Operacao_Normal
     else status)"

subsection \<open>Filtering and validation\<close>

text \<open>The loop of \<^verbatim>\<open>filterByService\<close>, with \<^verbatim>\<open>result\<close> as its state.\<close>

fun filterByService_loop ::
  "unicode_tables \<Rightarrow> string \<Rightarrow> LineItem list \<Rightarrow> ServiceData list \<Rightarrow> LineItem list" where
  "filterByService_loop T service result [] = result"
| "filterByService_loop T service result (svc # data) =
    filterByService_loop T service
      (if service = [] \<or> EqualFold T (Type svc) service then result @ ListItem svc else result)
      data"

definition filterByService :: "unicode_tables \<Rightarrow> ServiceData list \<Rightarrow> string \<Rightarrow> LineItem list" where
  "filterByService T data service = filterByService_loop T service [] data"

fun isValidService_loop :: "unicode_tables \<Rightarrow> string \<Rightarrow> string list \<Rightarrow> bool" where
  "isValidService_loop T service [] = False"
| "isValidService_loop T service (s # ss) =
    (if EqualFold T s service then True else isValidService_loop T service ss)"

definition isValidService :: "unicode_tables \<Rightarrow> string \<Rightarrow> bool" where
  "isValidService T service = isValidService_loop T service validServices"

subsection \<open>The table renderer\<close>

text \<open>
  \<^verbatim>\<open>%-*s\<close> of \<^verbatim>\<open>fmt.Printf\<close>: the string, then spaces up to the width, which \<^verbatim>\<open>fmt\<close>
  counts in runes (\<^verbatim>\<open>utf8.RuneCountInString\<close>).
\<close>

definition pad_right :: "nat \<Rightarrow> string \<Rightarrow> string" where
  "pad_right width s = s @ replicate (width - RuneCountInString s) CHR '' ''"

text \<open>The first loop of \<^verbatim>\<open>printTable\<close>, with \<^verbatim>\<open>maxLen\<close> as its state; \<^verbatim>\<open>len\<close> counts bytes.\<close>

fun maxLen_loop :: "unicode_tables \<Rightarrow> nat \<Rightarrow> LineItem list \<Rightarrow> nat" where
  "maxLen_loop T maxLen [] = maxLen"
| "maxLen_loop T maxLen (line # lines) =
    (let name = formatLineName T (Line line) in
     maxLen_loop T (if length name > maxLen then length name else maxLen) lines)"

definition table_maxLen :: "unicode_tables \<Rightarrow> LineItem list \<Rightarrow> nat" where
  "table_maxLen T lines = maxLen_loop T 5 lines"

definition table_row :: "unicode_tables \<Rightarrow> nat \<Rightarrow> LineItem \<Rightarrow> string" where
  "table_row T maxLen line =
    (let name = formatLineName T (Line line);
         status = normalizeStatus T (Status line);
         color = getColorForStatus T (StatusColor line)
     in pad_right maxLen name @ ''  '' @ color @ status @ colorReset @ ''\<newline>'')"

text \<open>\<^verbatim>\<open>printTable\<close>: what it writes to standard output.\<close>

definition printTable :: "unicode_tables \<Rightarrow> LineItem list \<Rightarrow> string" where
  "printTable T lines =
    (let maxLen = table_maxLen T lines in
     colorBold @ pad_right maxLen ''Linha'' @ ''  '' @ ''Status'' @ colorReset @ ''\<newline>''
     @ Repeat ''-'' (maxLen + 2 + 20) @ ''\<newline>''
     @ concat (map (table_row T maxLen) lines))"


subsection \<open>The JSON renderer\<close>

text \<open>
  A string as \<^verbatim>\<open>encoding/json\<close> writes it (Go 1.21, with the encoder's default HTML
  escaping): the bytes \<^verbatim>\<open>0x20..0x7F\<close> are copied, except the double quote, the backslash
  and \<^verbatim>\<open><\<close>, \<^verbatim>\<open>>\<close>, \<^verbatim>\<open>&\<close>, which are escaped like the control bytes; a well-formed
  sequence outside ASCII is copied, except \<^verbatim>\<open>U+2028\<close> and \<^verbatim>\<open>U+2029\<close>; every ill-formed
  byte is written as the escape of \<^verbatim>\<open>U+FFFD\<close>.
\<close>

definition dquote :: char where
  "dquote = CHR 0x22"

definition backslash :: char where
  "backslash = CHR 0x5C"

definition hex_digit :: "nat \<Rightarrow> char" where
  "hex_digit n = ''0123456789abcdef'' ! n"

definition htmlSafe :: "nat \<Rightarrow> bool" where
  "htmlSafe b = (0x20 \<le> b \<and> b < 0x80 \<and> b \<noteq> 0x22 \<and> b \<noteq> 0x26 \<and> b \<noteq> 0x3C \<and> b \<noteq> 0x3E \<and> b \<noteq> 0x5C)"

definition escape_byte :: "nat \<Rightarrow> string" where
  "escape_byte b =
    (if b = 0x5C \<or> b = 0x22 then [backslash, chr b]
     else if b = 10 then [backslash, CHR ''n'']
     else if b = 13 then [backslash, CHR ''r'']
     else if b = 9 then [backslash, CHR ''t'']
     else [backslash] @ ''u00'' @ [hex_digit (b div 16), hex_digit (b mod 16)])"

function appendString_body :: "string \<Rightarrow> string" where
  "appendString_body s =
    (if s = [] then []
     else if byte (hd s) < 0x80 then
       (if htmlSafe (byte (hd s)) then [hd s] else escape_byte (byte (hd s)))
       @ appendString_body (tl s)
     else
       let c = fst (DecodeRuneInString s); size = snd (DecodeRuneInString s) in
       (if c = RuneError \<and> size = 1 then [backslash] @ ''ufffd''
        else if c = 0x2028 \<or> c = 0x2029 then [backslash] @ ''u202'' @ [hex_digit (c mod 16)]
        else take size s)
       @ appendString_body (drop size s))"
  by pat_completeness auto
termination
proof (relation "measure length")
  show "wf (measure length)" by simp
next
  fix s :: string
  assume "s \<noteq> []"
  then show "(tl s, s) \<in> measure length" by (cases s) auto
next
  fix s :: string and c :: rune and size :: nat
  assume "s \<noteq> []" and "size = snd (DecodeRuneInString s)"
  moreover from \<open>s \<noteq> []\<close> have "1 \<le> snd (DecodeRuneInString s)"
    using DecodeRuneInString_width by blast
  ultimately show "(drop size s, s) \<in> measure length"
    by (cases s) auto
qed

declare appendString_body.simps [simp del]

definition appendString :: "string \<Rightarrow> string" where
  "appendString s = [dquote] @ appendString_body s @ [dquote]"

function decimal :: "nat \<Rightarrow> string" where
  "decimal n = (if n < 10 then [chr (48 + n)] else decimal (n div 10) @ [chr (48 + n mod 10)])"
  by pat_completeness auto
termination
  by (relation "measure id") auto

declare decimal.simps [simp del]

definition decimal_int :: "int \<Rightarrow> string" where
  "decimal_int i = (if i < 0 then ''-'' @ decimal (nat (- i)) else decimal (nat i))"

text \<open>
  The document \<^verbatim>\<open>Encoder.Encode\<close> writes for an \<^verbatim>\<open>OutputResponse\<close> after
  \<^verbatim>\<open>SetIndent("", "    ")\<close>: the fields in the order of the struct, one per line, four
  spaces for each level, an empty array as \<^verbatim>\<open>[]\<close>, and a newline at the end.
\<close>

definition json_key :: "string \<Rightarrow> string" where
  "json_key k = [dquote] @ k @ [dquote] @ '': ''"

definition encode_OutputLine :: "OutputLine \<Rightarrow> string" where
  "encode_OutputLine l =
    ''        {\<newline>''
    @ ''            '' @ json_key ''line'' @ appendString (out_Line l) @ '',\<newline>''
    @ ''            '' @ json_key ''status'' @ appendString (out_Status l) @ ''\<newline>''
    @ ''        }''"

definition encode_OutputResponse :: "OutputResponse \<Rightarrow> string" where
  "encode_OutputResponse r =
    ''{\<newline>''
    @ ''    '' @ json_key ''code'' @ decimal_int (out_Code r) @ '',\<newline>''
    @ ''    '' @ json_key ''data''
    @ (if out_Data r = [] then ''[]''
       else ''[\<newline>'' @ Join (map encode_OutputLine (out_Data r)) '',\<newline>'' @ ''\<newline>    ]'')
    @ '',\<newline>''
    @ ''    '' @ json_key ''message'' @ appendString (out_Message r) @ ''\<newline>''
    @ ''}\<newline>''"

text \<open>The loop of \<^verbatim>\<open>printJSON\<close>: \<^verbatim>\<open>outputLines[i]\<close> is assigned for each index in turn.\<close>

fun printJSON_loop ::
  "unicode_tables \<Rightarrow> OutputLine list \<Rightarrow> nat \<Rightarrow> LineItem list \<Rightarrow> OutputLine list" where
  "printJSON_loop T outputLines i [] = outputLines"
| "printJSON_loop T outputLines i (line # lines) =
    printJSON_loop T
      (outputLines[i := \<lparr> out_Line = formatLineName T (Line line),
                           out_Status = normalizeStatus T (Status line) \<rparr>])
      (i + 1) lines"

definition printJSON_output :: "unicode_tables \<Rightarrow> LineItem list \<Rightarrow> OutputResponse" where
  "printJSON_output T lines =
    (let outputLines =
       printJSON_loop T (replicate (length lines) \<lparr> out_Line = [], out_Status = [] \<rparr>) 0 lines
     in \<lparr> out_Code = 200, out_Data = outputLines, out_Message = ''success'' \<rparr>)"

text \<open>
  \<^verbatim>\<open>printJSON\<close>: what it writes to standard output. (Writing to standard output is taken
  to succeed, so the error it could return is not modelled.)
\<close>

definition printJSON :: "unicode_tables \<Rightarrow> LineItem list \<Rightarrow> string" where
  "printJSON T lines = encode_OutputResponse (printJSON_output T lines)"

subsection \<open>Fetching\<close>

text \<open>
  The reply of the network is an input of the model: the request failed with an error
  text, or a response came with a status code and a body that \<^verbatim>\<open>encoding/json\<close> either
  rejects with an error text or decodes into an \<^verbatim>\<open>APIResponse\<close>.
  \<^verbatim>\<open>fetchLineStatuses\<close> returns the text of its error on the left.
\<close>

datatype http_reply =
  TransportError string
| HTTPResponse nat "string + APIResponse"

fun fetchLineStatuses :: "http_reply \<Rightarrow> string + APIResponse" where
  "fetchLineStatuses (TransportError e) = Inl (''failed to fetch data: '' @ e)"
| "fetchLineStatuses (HTTPResponse code body) =
    (if code \<noteq> 200 then Inl (''API returned status '' @ decimal code)
     else case body of
       Inl e \<Rightarrow> Inl (''failed to parse response: '' @ e)
     | Inr apiResp \<Rightarrow> Inr apiResp)"

subsection \<open>\<^verbatim>\<open>main\<close>\<close>

definition copyrightInfo :: string where
  "copyrightInfo =
     ''\<newline>''
     @ ''The person who associated a work with this deed has dedicated the work to the\<newline>''
     @ ''public domain by waiving all of his or her rights to the work worldwide under\<newline>''
     @ ''copyright law, including all related and neighboring rights, to the extent\<newline>''
     @ ''allowed by law.\<newline>''
     @ ''\<newline>''
     @ ''You can copy, modify, distribute and perform the work, even for commercial\<newline>''
     @ ''purposes, all without asking permission.\<newline>''
     @ ''\<newline>''
     @ ''AFFIRMER OFFERS THE WORK AS-IS AND MAKES NO REPRESENTATIONS OR WARRANTIES OF\<newline>''
     @ ''ANY KIND CONCERNING THE WORK, EXPRESS, IMPLIED, STATUTORY OR OTHERWISE,\<newline>''
     @ ''INCLUDING WITHOUT LIMITATION WARRANTIES OF TITLE, MERCHANTABILITY, FITNESS FOR\<newline>''
     @ ''A PARTICULAR PURPOSE, NON INFRINGEMENT, OR THE ABSENCE OF LATENT OR OTHER\<newline>''
     @ ''DEFECTS, ACCURACY, OR THE PRESENT OR ABSENCE OF ERRORS, WHETHER OR NOT\<newline>''
     @ ''DISCOVERABLE, ALL TO THE GREATEST EXTENT PERMISSIBLE UNDER APPLICABLE LAW.\<newline>''
     @ ''\<newline>''
     @ ''For more information, please see\<newline>''
     @ ''<http://creativecommons.org/publicdomain/zero/1.0/>\<newline>''"

definition printUsage :: string where
  "printUsage =
     programName @ '': '' @ programDescription @ ''\<newline>''
     @ ''\<newline>''
     @ programName @ '' (portuguese for '' @ [CHR 0x22] @ ''Sao Paulo public transportation'' @ [CHR 0x22] @ '')\<newline>''
     @ ''is a tiny command-line tool that tells you the current\<newline>''
     @ ''status of Metro, CPTM, ViaMobilidade, and ViaQuatro lines.\<newline>''
     @ ''\<newline>''
     @ ''Usage:\<newline>''
     @ ''    '' @ programName @ '' [service] [flags]\<newline>''
     @ ''\<newline>''
     @ ''Services:\<newline>''
     @ ''    metro          Show Metro lines only\<newline>''
     @ ''    cptm           Show CPTM lines only\<newline>''
     @ ''    viamobilidade  Show ViaMobilidade lines only\<newline>''
     @ ''    viaquatro      Show ViaQuatro lines only\<newline>''
     @ ''\<newline>''
     @ ''    If no service is specified, all lines are shown.\<newline>''
     @ ''\<newline>''
     @ ''Flags:\<newline>''
     @ ''    -j, --json     Show the output in JSON format\<newline>''
     @ ''    -v, --version  Show the program version and exit\<newline>''
     @ ''    --copyright    Show the copyright information and exit\<newline>''
     @ ''    -h, --help     Show this help message\<newline>''
     @ ''\<newline>''
     @ ''Examples:\<newline>''
     @ ''    $ '' @ programName @ ''\<newline>''
     @ ''    # => shows the current state of all lines\<newline>''
     @ ''\<newline>''
     @ ''    $ '' @ programName @ '' metro\<newline>''
     @ ''    # => shows the current state of all Metro lines\<newline>''
     @ ''\<newline>''
     @ ''    $ '' @ programName @ '' cptm --json\<newline>''
     @ ''    # => shows the current state of all CPTM lines in JSON format\<newline>''
     @ ''\<newline>''
     @ ''This is a Free and Open-Source Software (FOSS).\<newline>''
     @ ''Project page: <'' @ programURL @ ''>\<newline>''"

text \<open>
  What a run leaves behind: the exit code, what was written to standard output and to
  standard error, and whether the HTTP request was issued.
\<close>

record run =
  exit_code :: int
  stdout :: string
  stderr :: string
  requested :: bool

record flags =
  jsonOutput :: bool
  showVersion :: bool
  showCopyright :: bool
  showHelp :: bool
  args :: "string list"

definition squote :: char where
  "squote = CHR 0x27"

text \<open>
  The argument loop over \<^verbatim>\<open>os.Args[1:]\<close>: it ends the run (on the left) at the first
  argument that starts with \<^verbatim>\<open>-\<close> and is no known flag.
\<close>

fun parse_args :: "flags \<Rightarrow> string list \<Rightarrow> run + flags" where
  "parse_args fl [] = Inr fl"
| "parse_args fl (arg # rest) =
    (if arg = ''-j'' \<or> arg = ''--json'' then parse_args (fl\<lparr>jsonOutput := True\<rparr>) rest
     else if arg = ''-v'' \<or> arg = ''--version'' then parse_args (fl\<lparr>showVersion := True\<rparr>) rest
     else if arg = ''--copyright'' then parse_args (fl\<lparr>showCopyright := True\<rparr>) rest
     else if arg = ''-h'' \<or> arg = ''--help'' then parse_args (fl\<lparr>showHelp := True\<rparr>) rest
     else if HasPrefix arg ''-'' then
       Inl \<lparr> exit_code = 1, stdout = [],
             stderr = ''Error: unknown flag '' @ [squote] @ arg @ [squote] @ ''\<newline>''
               @ ''Use '' @ [squote] @ programName @ '' --help'' @ [squote]
               @ '' for usage information\<newline>'',
             requested = False \<rparr>
     else parse_args (fl\<lparr>args := args fl @ [arg]\<rparr>) rest)"

definition no_flags :: flags where
  "no_flags = \<lparr> jsonOutput = False, showVersion = False, showCopyright = False,
                 showHelp = False, args = [] \<rparr>"

definition main :: "unicode_tables \<Rightarrow> string list \<Rightarrow> http_reply \<Rightarrow> run" where
  "main T argv reply =
    (case parse_args no_flags argv of
       Inl stopped \<Rightarrow> stopped
     | Inr fl \<Rightarrow>
         if showHelp fl then
           \<lparr> exit_code = 0, stdout = printUsage, stderr = [], requested = False \<rparr>
         else if showVersion fl then
           \<lparr> exit_code = 0, stdout = programName @ '' ('' @ programVersion @ '')\<newline>'',
             stderr = [], requested = False \<rparr>
         else if showCopyright fl then
           \<lparr> exit_code = 0, stdout = copyrightInfo @ ''\<newline>'', stderr = [], requested = False \<rparr>
         else
           let serviceFilter = (if length (args fl) > 0 then args fl ! 0 else []) in
           if length (args fl) > 0 \<and> \<not> isValidService T serviceFilter then
             \<lparr> exit_code = 1, stdout = [],
               stderr = ''Error: invalid service '' @ [squote] @ serviceFilter @ [squote] @ ''\<newline>''
                 @ ''Valid services: '' @ Join validServices '', '' @ ''\<newline>'',
               requested = False \<rparr>
           else
             case fetchLineStatuses reply of
               Inl err \<Rightarrow>
                 \<lparr> exit_code = 1, stdout = [], stderr = ''Error: '' @ err @ ''\<newline>'',
                   requested = True \<rparr>
             | Inr apiResp \<Rightarrow>
                 if \<not> api_Status apiResp then
                   \<lparr> exit_code = 1, stdout = [],
                     stderr = ''Error: API returned unsuccessful status\<newline>'', requested = True \<rparr>
                 else
                   let lines = filterByService T (api_Data apiResp) serviceFilter in
                   if length lines = 0 then
                     \<lparr> exit_code = 1, stdout = [], stderr = ''No lines found\<newline>'',
                       requested = True \<rparr>
                   else
                     \<lparr> exit_code = 0,
                       stdout = ''\<newline>''
                         @ (if jsonOutput fl then printJSON T lines else printTable T lines),
                       stderr = [], requested = True \<rparr>)"

section \<open>Notions of the specification and sample inputs\<close>

text \<open>A line item and a batch with the fields that matter here; the others are empty.\<close>

definition item :: "string \<Rightarrow> string \<Rightarrow> string \<Rightarrow> LineItem" where
  "item line status statusColor =
    \<lparr> ID = [], Line = line, Color = [], Status = status, StatusColor = statusColor,
      Description = [], Code = [] \<rparr>"

definition batch :: "string \<Rightarrow> LineItem list \<Rightarrow> ServiceData" where
  "batch type items = \<lparr> ListItem = items, DateUpdate = [], Type = type \<rparr>"

definition metro_batch :: ServiceData where
  "metro_batch = batch ''metro'' [item ''Linha 1-Azul'' ''ok'' ''verde'', item ''Linha 2-Verde'' ''ok'' ''verde'']"

definition cptm_batch :: ServiceData where
  "cptm_batch = batch ''cptm'' [item ''Linha 7-Rubi'' ''ok'' ''verde'']"

text \<open>The status colors the specification names.\<close>

definition known_status_colors :: "string list" where
  "known_status_colors = [''verde'', ''amarelo'', ''vermelho'', ''cinza'']"

text \<open>
  The plural status phrases, in the capitals of the specification's example, in those of
  the source's \<^verbatim>\<open>case\<close> labels, and in upper case (\<^verbatim>\<open>c3 87\<close> and \<^verbatim>\<open>c3 95\<close> are the capital
  c-cedilla and o-tilde).
\<close>

definition Operacoes_Encerradas :: string where
  "Operacoes_Encerradas = ''Opera'' @ [CHR 0xC3, CHR 0xA7, CHR 0xC3, CHR 0xB5] @ ''es Encerradas''"

definition Operacoes_Normais :: string where
  "Operacoes_Normais = ''Opera'' @ [CHR 0xC3, CHR 0xA7, CHR 0xC3, CHR 0xB5] @ ''es Normais''"

definition OPERACOES_NORMAIS :: string where
  "OPERACOES_NORMAIS = ''OPERA'' @ [CHR 0xC3, CHR 0x87, CHR 0xC3, CHR 0x95] @ ''ES NORMAIS''"

definition plural_phrases :: "string list" where
  "plural_phrases = [Operacoes_Encerradas, Operacoes_Normais, operacoes_encerradas, operacoes_normais]"

text \<open>
  The command line, as the specification speaks of it: the recognized flags, an argument
  that starts with \<^verbatim>\<open>-\<close> and is no recognized flag, the flags that print and exit, the
  positional arguments, the requested service (the first positional argument, or the
  empty string), and membership in the fixed valid set compared case-insensitively.
\<close>

definition recognized_flag :: "string \<Rightarrow> bool" where
  "recognized_flag a =
    (a \<in> set [''-j'', ''--json'', ''-v'', ''--version'', ''--copyright'', ''-h'', ''--help''])"

definition unknown_flag :: "string \<Rightarrow> bool" where
  "unknown_flag a = (HasPrefix a ''-'' \<and> \<not> recognized_flag a)"

definition info_flag :: "string \<Rightarrow> bool" where
  "info_flag a = (a \<in> set [''-v'', ''--version'', ''--copyright'', ''-h'', ''--help''])"

definition positionals :: "string list \<Rightarrow> string list" where
  "positionals argv = filter (\<lambda>a. \<not> HasPrefix a ''-'') argv"

definition requested_service :: "string list \<Rightarrow> string" where
  "requested_service argv = (case positionals argv of [] \<Rightarrow> [] | a # rest \<Rightarrow> a)"

definition in_valid_set :: "unicode_tables \<Rightarrow> string \<Rightarrow> bool" where
  "in_valid_set T a = list_ex (\<lambda>v. EqualFold T v a) validServices"

text \<open>A reply of the API with the Metro batch only.\<close>

definition metro_only :: APIResponse where
  "metro_only = \<lparr> api_Status = True, api_Data = [metro_batch] \<rparr>"

definition metro_reply :: http_reply where
  "metro_reply = HTTPResponse 200 (Inr metro_only)"

text \<open>
  The runes that UTF-8 encodes: up to \<^verbatim>\<open>MaxRune\<close> and no surrogate. A case table is closed
  under lower-casing when, on these runes, \<^verbatim>\<open>unicode.ToLower\<close> yields such a rune again
  and leaves its own results unchanged (as the lower-casing of Unicode does).
\<close>

definition valid_rune :: "rune \<Rightarrow> bool" where
  "valid_rune r = (r \<le> MaxRune \<and> \<not> (0xD800 \<le> r \<and> r \<le> 0xDFFF))"

definition lower_closed :: "unicode_tables \<Rightarrow> bool" where
  "lower_closed T =
    (\<forall>r. valid_rune r \<longrightarrow>
       valid_rune (unicode_ToLower T r)
       \<and> unicode_ToLower T (unicode_ToLower T r) = unicode_ToLower T r)"

text \<open>
  Line-name formatting in the specification's words: the text after the last \<^verbatim>\<open>-\<close>
  (the whole text when there is none), trimmed, then title-cased, that is, its first
  character upper-cased and the rest lower-cased.
\<close>

definition after_last_dash :: "string \<Rightarrow> string" where
  "after_last_dash line = rev (takeWhile (\<lambda>c. c \<noteq> CHR ''-'') (rev line))"

definition title_case :: "unicode_tables \<Rightarrow> string \<Rightarrow> string" where
  "title_case T s =
    (if s = [] then []
     else ToUpper T (take (snd (DecodeRuneInString s)) s)
       @ ToLower T (drop (snd (DecodeRuneInString s)) s))"

definition spec_formatLineName :: "unicode_tables \<Rightarrow> string \<Rightarrow> string" where
  "spec_formatLineName T line = title_case T (TrimSpace (after_last_dash line))"

text \<open>
  The column width in the specification's words: the largest display width, in
  characters, of the formatted line names, and at least 5.
\<close>

definition spec_column_width :: "unicode_tables \<Rightarrow> LineItem list \<Rightarrow> nat" where
  "spec_column_width T lines =
    foldr max (map (\<lambda>line. RuneCountInString (formatLineName T (Line line))) lines) 5"

text \<open>
  Line names with a letter outside ASCII: \<^verbatim>\<open>c3 81\<close> and \<^verbatim>\<open>c3 a1\<close> are the capital and the
  small a-acute; \<^verbatim>\<open>c3 83\<close> is the capital a-tilde and \<^verbatim>\<open>ef bf bd\<close> is \<^verbatim>\<open>U+FFFD\<close>.
\<close>

definition Agata :: string where
  "Agata = [CHR 0xC3, CHR 0x81] @ ''gata''"

definition agata :: string where
  "agata = [CHR 0xC3, CHR 0xA1] @ ''gata''"

definition Linha_14_Agata :: string where
  "Linha_14_Agata = ''Linha 14-'' @ Agata"

definition garbled_Agata :: string where
  "garbled_Agata = [CHR 0xC3, CHR 0x83, CHR 0xEF, CHR 0xBF, CHR 0xBD] @ ''gata''"

definition Lilas :: string where
  "Lilas = ''Lil'' @ [CHR 0xC3, CHR 0xA1] @ ''s''"

definition Linha_5_Lilas :: string where
  "Linha_5_Lilas = ''Linha 5-'' @ Lilas"

text \<open>
  Two line items as the API sends them, and one whose status is a single byte that is not
  well-formed UTF-8.
\<close>

definition sample_lines :: "LineItem list" where
  "sample_lines =
    [item ''Linha 1-Azul'' Operacoes_Normais ''verde'',
     item ''Linha 15-Prata'' ''  Velocidade Reduzida '' ''amarelo'']"

definition ill_formed_item :: LineItem where
  "ill_formed_item = item ''Linha 1-Azul'' [CHR 0xFF] ''verde''"


section \<open>Reading a JSON document\<close>

text \<open>
  The round trip of the specification decodes what the JSON renderer wrote. The reader
  below is that of \<^verbatim>\<open>encoding/json\<close> for the JSON grammar of RFC 8259: a lexer (with the
  unquoting of strings, which coerces them to well-formed UTF-8 as \<^verbatim>\<open>AppendRune\<close> does), a
  pushdown parser from tokens to JSON values, and the reading of a value into an
  \<^verbatim>\<open>OutputResponse\<close>: a member goes to the field whose tag is its name, exactly or else
  under simple case folding (the comparison of \<^verbatim>\<open>strings.EqualFold\<close>, which is where the
  case tables come in), unknown members are skipped, the last of several members of one
  field wins.
\<close>

datatype json =
  JNull
| JBool bool
| JNumber string
| JString string
| JArray "json list"
| JObject "(string \<times> json) list"

datatype token =
  LBrace | RBrace | LBrack | RBrack | Colon | Comma
| TString string | TNumber string | TTrue | TFalse | TNull

subsection \<open>Strings\<close>

definition hex_val :: "char \<Rightarrow> nat option" where
  "hex_val c =
    (let b = byte c in
     if 0x30 \<le> b \<and> b \<le> 0x39 then Some (b - 0x30)
     else if 0x61 \<le> b \<and> b \<le> 0x66 then Some (b - 0x61 + 10)
     else if 0x41 \<le> b \<and> b \<le> 0x46 then Some (b - 0x41 + 10)
     else None)"

text \<open>\<^verbatim>\<open>getu4\<close>: the rune of four hexadecimal digits (the text after \<^verbatim>\<open>\u\<close>).\<close>

fun getu4 :: "string \<Rightarrow> rune option" where
  "getu4 (a # b # c # d # s) =
    (case (hex_val a, hex_val b, hex_val c, hex_val d) of
       (Some x, Some y, Some z, Some w) \<Rightarrow> Some (((x * 16 + y) * 16 + z) * 16 + w)
     | _ \<Rightarrow> None)"
| "getu4 s = None"

definition IsSurrogate :: "rune \<Rightarrow> bool" where
  "IsSurrogate r = (0xD800 \<le> r \<and> r < 0xE000)"

text \<open>\<^verbatim>\<open>utf16.DecodeRune\<close>: the rune of a surrogate pair, \<^verbatim>\<open>U+FFFD\<close> if it is none.\<close>

definition DecodeRune16 :: "rune \<Rightarrow> rune \<Rightarrow> rune" where
  "DecodeRune16 r1 r2 =
    (if 0xD800 \<le> r1 \<and> r1 < 0xDC00 \<and> 0xDC00 \<le> r2 \<and> r2 < 0xE000
     then (r1 - 0xD800) * 1024 + (r2 - 0xDC00) + 0x10000
     else RuneError)"

text \<open>
  The rune of a \<^verbatim>\<open>\u\<close> escape and the number of bytes it takes after the \<^verbatim>\<open>\u\<close>: a
  surrogate with its partner in a second escape is one rune, a lone one is \<^verbatim>\<open>U+FFFD\<close>.
\<close>

definition unicode_escape :: "string \<Rightarrow> (rune \<times> nat) option" where
  "unicode_escape s =
    (case getu4 s of
       None \<Rightarrow> None
     | Some rr \<Rightarrow>
         if IsSurrogate rr then
           (case (if take 2 (drop 4 s) = [backslash, CHR ''u''] then getu4 (drop 6 s) else None) of
              None \<Rightarrow> Some (RuneError, 4)
            | Some rr1 \<Rightarrow>
                if DecodeRune16 rr rr1 \<noteq> RuneError then Some (DecodeRune16 rr rr1, 10)
                else Some (RuneError, 4))
         else Some (rr, 4))"

definition simple_escape :: "char \<Rightarrow> char option" where
  "simple_escape e =
    (if e = dquote \<or> e = backslash \<or> e = CHR ''/'' then Some e
     else if e = CHR ''b'' then Some (CHR 0x08)
     else if e = CHR ''f'' then Some (CHR 0x0C)
     else if e = CHR ''n'' then Some (CHR 0x0A)
     else if e = CHR ''r'' then Some (CHR 0x0D)
     else if e = CHR ''t'' then Some (CHR 0x09)
     else None)"

definition prepend :: "string \<Rightarrow> (string \<times> string) option \<Rightarrow> (string \<times> string) option" where
  "prepend x r = map_option (\<lambda>(str, rest). (x @ str, rest)) r"

text \<open>
  \<^verbatim>\<open>unquote\<close>, from after the opening quote: the string and the text after its closing
  quote. A control byte and an unknown escape are errors; a byte outside ASCII is decoded
  as UTF-8 and encoded again.
\<close>

function unquote :: "string \<Rightarrow> (string \<times> string) option" where
  "unquote [] = None"
| "unquote (c # s) =
    (if c = dquote then Some ([], s)
     else if c = backslash then
       (case s of
          [] \<Rightarrow> None
        | e # s' \<Rightarrow>
            if e = CHR ''u'' then
              (case unicode_escape s' of
                 None \<Rightarrow> None
               | Some (rr, n) \<Rightarrow> prepend (EncodeRune rr) (unquote (drop n s')))
            else
              (case simple_escape e of
                 None \<Rightarrow> None
               | Some ch \<Rightarrow> prepend [ch] (unquote s')))
     else if byte c < 0x20 then None
     else if byte c < 0x80 then prepend [c] (unquote s)
     else prepend (EncodeRune (fst (DecodeRuneInString (c # s))))
            (unquote (drop (snd (DecodeRuneInString (c # s))) (c # s))))"
  by pat_completeness auto
termination
proof (relation "measure length")
  show "wf (measure length)" by simp
next
  fix c :: char and s :: string
  have "1 \<le> snd (DecodeRuneInString (c # s))"
    using DecodeRuneInString_width [of "c # s"] by simp
  then show "(drop (snd (DecodeRuneInString (c # s))) (c # s), c # s) \<in> measure length"
    by simp
qed auto

declare unquote.simps(2) [simp del]

lemma prepend_Some: "prepend x r = Some (str, rest) \<Longrightarrow> \<exists>t. r = Some (t, rest) \<and> str = x @ t"
  by (cases r) (auto simp: prepend_def)

lemma unquote_shorter: "unquote s = Some (str, rest) \<Longrightarrow> length rest < length s"
proof (induction s arbitrary: str rest rule: unquote.induct)
  case 1
  then show ?case by simp
next
  case (2 c s)
  have w: "1 \<le> snd (DecodeRuneInString (c # s))"
    using DecodeRuneInString_width [of "c # s"] by simp
  from "2.prems" show ?case
    apply (subst (asm) unquote.simps(2))
    apply (auto split: if_splits list.splits option.splits prod.splits dest!: prepend_Some)
    subgoal using "2.IH"(1) by fastforce
    subgoal using "2.IH"(2) by fastforce
    subgoal using "2.IH"(3) by fastforce
    subgoal using "2.IH"(4) w by fastforce
    done
qed

subsection \<open>The lexer\<close>

definition is_ws :: "char \<Rightarrow> bool" where
  "is_ws c = (c = CHR '' '' \<or> c = CHR 0x09 \<or> c = CHR 0x0A \<or> c = CHR 0x0D)"

definition is_digit :: "char \<Rightarrow> bool" where
  "is_digit c = (0x30 \<le> byte c \<and> byte c \<le> 0x39)"

definition number_char :: "char \<Rightarrow> bool" where
  "number_char c = (is_digit c \<or> c = CHR ''-'' \<or> c = CHR ''+'' \<or> c = CHR ''.'' \<or> c = CHR ''e'' \<or> c = CHR ''E'')"

text \<open>The number grammar: \<^verbatim>\<open>-? (0 | [1-9][0-9]*) (. [0-9]+)? ([eE] [+-]? [0-9]+)?\<close>.\<close>

definition digits1 :: "string \<Rightarrow> bool" where
  "digits1 s = (s \<noteq> [] \<and> list_all is_digit s)"

definition exponent_ok :: "string \<Rightarrow> bool" where
  "exponent_ok s =
    (case s of
       [] \<Rightarrow> True
     | e # r \<Rightarrow>
         (e = CHR ''e'' \<or> e = CHR ''E'')
         \<and> (case r of
              [] \<Rightarrow> False
            | sign # r' \<Rightarrow> if sign = CHR ''+'' \<or> sign = CHR ''-'' then digits1 r' else digits1 r))"

definition fraction_ok :: "string \<Rightarrow> bool" where
  "fraction_ok s =
    (case s of
       [] \<Rightarrow> True
     | d # r \<Rightarrow>
         if d = CHR ''.'' then takeWhile is_digit r \<noteq> [] \<and> exponent_ok (dropWhile is_digit r)
         else exponent_ok s)"

definition integer_ok :: "string \<Rightarrow> bool" where
  "integer_ok s = (s = ''0'' \<or> (digits1 s \<and> hd s \<noteq> CHR ''0''))"

definition is_number :: "string \<Rightarrow> bool" where
  "is_number s =
    (let t = (if s \<noteq> [] \<and> hd s = CHR ''-'' then tl s else s) in
     integer_ok (takeWhile is_digit t) \<and> fraction_ok (dropWhile is_digit t))"

function lex_json :: "string \<Rightarrow> token list option" where
  "lex_json [] = Some []"
| "lex_json (c # s) =
    (if is_ws c then lex_json s
     else if c = CHR ''{'' then map_option (Cons LBrace) (lex_json s)
     else if c = CHR ''}'' then map_option (Cons RBrace) (lex_json s)
     else if c = CHR ''['' then map_option (Cons LBrack) (lex_json s)
     else if c = CHR '']'' then map_option (Cons RBrack) (lex_json s)
     else if c = CHR '':'' then map_option (Cons Colon) (lex_json s)
     else if c = CHR '','' then map_option (Cons Comma) (lex_json s)
     else if c = dquote then
       (case unquote s of
          None \<Rightarrow> None
        | Some (str, rest) \<Rightarrow> map_option (Cons (TString str)) (lex_json rest))
     else if number_char c then
       (if is_number (c # takeWhile number_char s)
        then map_option (Cons (TNumber (c # takeWhile number_char s))) (lex_json (dropWhile number_char s))
        else None)
     else if take 4 (c # s) = ''true'' then map_option (Cons TTrue) (lex_json (drop 3 s))
     else if take 5 (c # s) = ''false'' then map_option (Cons TFalse) (lex_json (drop 4 s))
     else if take 4 (c # s) = ''null'' then map_option (Cons TNull) (lex_json (drop 3 s))
     else None)"
  by pat_completeness auto
termination
proof (relation "measure length")
  show "wf (measure length)" by simp
next
  fix c :: char and s :: string and x2 :: "string \<times> string" and str rest :: string
  assume "unquote s = Some x2" and "(str, rest) = x2"
  then have "length rest < length s" using unquote_shorter [of s str rest] by simp
  then show "(rest, c # s) \<in> measure length" by simp
next
  fix c :: char and s :: string
  have "length (dropWhile number_char s) \<le> length s" by (rule length_dropWhile_le)
  then show "(dropWhile number_char s, c # s) \<in> measure length" by simp
qed auto

declare lex_json.simps(2) [simp del]

subsection \<open>The parser\<close>

datatype frame =
  InArray "json list"
| InObject "(string \<times> json) list" "string option"

datatype mode = MValue | MValueOrClose | MKeyOrClose | MKey | MColon | MAfter

datatype pstate =
  Run mode "frame list"
| Finished json

text \<open>A value is complete: it is the document, an element of the array or the value of the pending key.\<close>

fun complete :: "json \<Rightarrow> frame list \<Rightarrow> pstate option" where
  "complete v [] = Some (Finished v)"
| "complete v (InArray es # st) = Some (Run MAfter (InArray (v # es) # st))"
| "complete v (InObject ms (Some k) # st) = Some (Run MAfter (InObject ((k, v) # ms) None # st))"
| "complete v (InObject ms None # st) = None"

fun close_array :: "frame list \<Rightarrow> pstate option" where
  "close_array (InArray es # st) = complete (JArray (rev es)) st"
| "close_array st = None"

fun close_object :: "frame list \<Rightarrow> pstate option" where
  "close_object (InObject ms None # st) = complete (JObject (rev ms)) st"
| "close_object st = None"

fun start_value :: "token \<Rightarrow> frame list \<Rightarrow> pstate option" where
  "start_value LBrace st = Some (Run MKeyOrClose (InObject [] None # st))"
| "start_value LBrack st = Some (Run MValueOrClose (InArray [] # st))"
| "start_value (TString s) st = complete (JString s) st"
| "start_value (TNumber n) st = complete (JNumber n) st"
| "start_value TTrue st = complete (JBool True) st"
| "start_value TFalse st = complete (JBool False) st"
| "start_value TNull st = complete JNull st"
| "start_value tok st = None"

fun take_key :: "token \<Rightarrow> frame list \<Rightarrow> pstate option" where
  "take_key (TString k) (InObject ms None # st) = Some (Run MColon (InObject ms (Some k) # st))"
| "take_key tok st = None"

fun after_value :: "token \<Rightarrow> frame list \<Rightarrow> pstate option" where
  "after_value Comma (InArray es # st) = Some (Run MValue (InArray es # st))"
| "after_value Comma (InObject ms None # st) = Some (Run MKey (InObject ms None # st))"
| "after_value RBrack st = close_array st"
| "after_value RBrace st = close_object st"
| "after_value tok st = None"

fun step :: "pstate \<Rightarrow> token \<Rightarrow> pstate option" where
  "step (Finished v) tok = None"
| "step (Run MValue st) tok = start_value tok st"
| "step (Run MValueOrClose st) tok = (if tok = RBrack then close_array st else start_value tok st)"
| "step (Run MKeyOrClose st) tok = (if tok = RBrace then close_object st else take_key tok st)"
| "step (Run MKey st) tok = take_key tok st"
| "step (Run MColon st) tok = (if tok = Colon then Some (Run MValue st) else None)"
| "step (Run MAfter st) tok = after_value tok st"

fun run_parser :: "pstate \<Rightarrow> token list \<Rightarrow> pstate option" where
  "run_parser st [] = Some st"
| "run_parser st (tok # toks) =
    (case step st tok of None \<Rightarrow> None | Some st' \<Rightarrow> run_parser st' toks)"

definition parse_json :: "string \<Rightarrow> json option" where
  "parse_json s =
    (case lex_json s of
       None \<Rightarrow> None
     | Some toks \<Rightarrow>
         (case run_parser (Run MValue []) toks of
            Some (Finished v) \<Rightarrow> Some v
          | _ \<Rightarrow> None))"

subsection \<open>Into the struct\<close>

text \<open>
  An integer literal (no fraction, no exponent) as the \<^verbatim>\<open>int\<close> it denotes, of 64 bits as on
  the platforms of the program's image; a literal outside that range is an error, as is
  one with a fraction or an exponent.
\<close>

definition digits_value :: "string \<Rightarrow> nat" where
  "digits_value s = foldl (\<lambda>n c. n * 10 + (byte c - 0x30)) 0 s"

definition int_of_literal :: "string \<Rightarrow> int option" where
  "int_of_literal s =
    (if s \<noteq> [] \<and> hd s = CHR ''-'' then
       (if integer_ok (tl s) \<and> digits_value (tl s) \<le> 9223372036854775808
        then Some (- int (digits_value (tl s))) else None)
     else if integer_ok s \<and> digits_value s \<le> 9223372036854775807 then Some (int (digits_value s))
     else None)"

text \<open>The field of a member: its tag equals the member's name exactly or under folding.\<close>

definition field_matches :: "unicode_tables \<Rightarrow> string \<Rightarrow> string \<Rightarrow> bool" where
  "field_matches T tag k = (k = tag \<or> EqualFold T tag k)"

fun set_line_field :: "unicode_tables \<Rightarrow> OutputLine option \<Rightarrow> string \<times> json \<Rightarrow> OutputLine option" where
  "set_line_field T None m = None"
| "set_line_field T (Some l) (k, v) =
    (if field_matches T ''line'' k then
       (case v of JString s \<Rightarrow> Some (l\<lparr>out_Line := s\<rparr>) | JNull \<Rightarrow> Some l | _ \<Rightarrow> None)
     else if field_matches T ''status'' k then
       (case v of JString s \<Rightarrow> Some (l\<lparr>out_Status := s\<rparr>) | JNull \<Rightarrow> Some l | _ \<Rightarrow> None)
     else Some l)"

fun decode_OutputLine :: "unicode_tables \<Rightarrow> json \<Rightarrow> OutputLine option" where
  "decode_OutputLine T (JObject ms) =
    foldl (set_line_field T) (Some \<lparr> out_Line = [], out_Status = [] \<rparr>) ms"
| "decode_OutputLine T JNull = Some \<lparr> out_Line = [], out_Status = [] \<rparr>"
| "decode_OutputLine T v = None"

fun all_some :: "'a option list \<Rightarrow> 'a list option" where
  "all_some [] = Some []"
| "all_some (None # xs) = None"
| "all_some (Some x # xs) = map_option (Cons x) (all_some xs)"

fun set_response_field ::
  "unicode_tables \<Rightarrow> OutputResponse option \<Rightarrow> string \<times> json \<Rightarrow> OutputResponse option" where
  "set_response_field T None m = None"
| "set_response_field T (Some r) (k, v) =
    (if field_matches T ''code'' k then
       (case v of
          JNumber n \<Rightarrow> map_option (\<lambda>i. r\<lparr>out_Code := i\<rparr>) (int_of_literal n)
        | JNull \<Rightarrow> Some r
        | _ \<Rightarrow> None)
     else if field_matches T ''data'' k then
       (case v of
          JArray vs \<Rightarrow> map_option (\<lambda>ls. r\<lparr>out_Data := ls\<rparr>) (all_some (map (decode_OutputLine T) vs))
        | JNull \<Rightarrow> Some r
        | _ \<Rightarrow> None)
     else if field_matches T ''message'' k then
       (case v of JString s \<Rightarrow> Some (r\<lparr>out_Message := s\<rparr>) | JNull \<Rightarrow> Some r | _ \<Rightarrow> None)
     else Some r)"

fun decode_OutputResponse :: "unicode_tables \<Rightarrow> json \<Rightarrow> OutputResponse option" where
  "decode_OutputResponse T (JObject ms) =
    foldl (set_response_field T) (Some \<lparr> out_Code = 0, out_Data = [], out_Message = [] \<rparr>) ms"
| "decode_OutputResponse T JNull = Some \<lparr> out_Code = 0, out_Data = [], out_Message = [] \<rparr>"
| "decode_OutputResponse T v = None"

text \<open>\<^verbatim>\<open>json.Unmarshal\<close> of a document into an \<^verbatim>\<open>OutputResponse\<close>; \<open>None\<close> is an error.\<close>

definition Unmarshal :: "unicode_tables \<Rightarrow> string \<Rightarrow> OutputResponse option" where
  "Unmarshal T s = (case parse_json s of None \<Rightarrow> None | Some v \<Rightarrow> decode_OutputResponse T v)"

text \<open>
  A string coerced to well-formed UTF-8, as the JSON encoder and decoder do it: every
  ill-formed byte becomes \<^verbatim>\<open>U+FFFD\<close>.
\<close>

definition coerce_utf8 :: "string \<Rightarrow> string" where
  "coerce_utf8 s = concat (map EncodeRune (runes s))"

subsection \<open>The document of the renderer, as tokens and as a value\<close>

text \<open>
  What the lexer and the parser are shown to make of the rendered document; strings
  appear coerced.
\<close>

definition line_json :: "OutputLine \<Rightarrow> json" where
  "line_json l =
    JObject [(''line'', JString (coerce_utf8 (out_Line l))),
             (''status'', JString (coerce_utf8 (out_Status l)))]"

definition line_tokens :: "OutputLine \<Rightarrow> token list" where
  "line_tokens l =
    [LBrace, TString ''line'', Colon, TString (coerce_utf8 (out_Line l)), Comma,
     TString ''status'', Colon, TString (coerce_utf8 (out_Status l)), RBrace]"

fun items_tokens :: "OutputLine list \<Rightarrow> token list" where
  "items_tokens [] = []"
| "items_tokens [l] = line_tokens l"
| "items_tokens (l # m # ls) = line_tokens l @ Comma # items_tokens (m # ls)"

definition document_tokens :: "OutputLine list \<Rightarrow> token list" where
  "document_tokens ls =
    [LBrace, TString ''code'', Colon, TNumber ''200'', Comma, TString ''data'', Colon, LBrack]
    @ items_tokens ls
    @ [RBrack, Comma, TString ''message'', Colon, TString ''success'', RBrace]"

definition document_json :: "OutputLine list \<Rightarrow> json" where
  "document_json ls =
    JObject [(''code'', JNumber ''200''), (''data'', JArray (map line_json ls)),
             (''message'', JString ''success'')]"

definition coerce_line :: "OutputLine \<Rightarrow> OutputLine" where
  "coerce_line l = \<lparr> out_Line = coerce_utf8 (out_Line l), out_Status = coerce_utf8 (out_Status l) \<rparr>"


section \<open>Evaluation of the string functions\<close>

lemma isASCII_Nil [simp]: "isASCII [] = True"
  by (simp add: isASCII_def)

lemma isASCII_Cons [simp]: "isASCII (c # s) = (byte c < 0x80 \<and> isASCII s)"
  by (simp add: isASCII_def)

text \<open>The equations that evaluate the string functions at a concrete input.\<close>

lemmas go_eval =
  Let_def isASCII_def lowerByte_def upperByte_def char_of_eq_iff
  runes.simps DecodeRuneInString.simps(2) EncodeRune_def seq_size_def accept_lo_def accept_hi_def
  RuneError_def MaxRune_def strings_Map_def ToLower_def ToUpper_def
  unicode_ToLower_def unicode_ToUpper_def unicode_IsSpace_def latin1_def latin1_upper_range_def
  TrimLeftFunc.simps TrimRightFunc_def TrimFunc_def lastIndexFunc.simps DecodeLastRuneInString_def
  scan_back.simps RuneStart_def trim_stop.simps asciiSpace_def

section \<open>Decoding what was encoded\<close>

text \<open>
  \<^verbatim>\<open>DecodeRuneInString\<close> reads back the rune that \<^verbatim>\<open>EncodeRune\<close> wrote, and yields only
  runes that UTF-8 encodes.
\<close>

lemma cont_mod: "b < 64 \<Longrightarrow> (128 + b) mod 64 = (b::nat)"
  using mod_mult_self3 [of 2 64 b] by simp

lemma lead2_mod: "a < 32 \<Longrightarrow> (192 + a) mod 32 = (a::nat)"
  using mod_mult_self3 [of 6 32 a] by simp

lemma lead3_mod: "a < 16 \<Longrightarrow> (224 + a) mod 16 = (a::nat)"
  using mod_mult_self3 [of 14 16 a] by simp

lemma lead4_mod: "a < 8 \<Longrightarrow> (240 + a) mod 8 = (a::nat)"
  using mod_mult_self3 [of 30 8 a] by simp

lemmas decode_simps =
  DecodeRuneInString.simps(2) Let_def seq_size_def accept_lo_def accept_hi_def
  cont_mod lead2_mod lead3_mod lead4_mod

lemma decode1:
  assumes "r \<le> 0x7F"
  shows "DecodeRuneInString (chr r # rest) = (r, 1)"
  using assms by (simp add: decode_simps)

lemma decode2:
  assumes "2 \<le> a" "a < 32" "b < 64"
  shows "DecodeRuneInString (chr (0xC0 + a) # chr (0x80 + b) # rest) = (a * 64 + b, 2)"
  using assms by (simp add: decode_simps)

lemma decode3:
  assumes "a < 16" "b < 64" "c < 64" "a = 0 \<longrightarrow> 32 \<le> b" "a = 13 \<longrightarrow> b < 32"
  shows "DecodeRuneInString (chr (0xE0 + a) # chr (0x80 + b) # chr (0x80 + c) # rest)
    = (a * 4096 + b * 64 + c, 3)"
  using assms by (auto simp add: decode_simps)

lemma decode4:
  assumes "a < 5" "b < 64" "c < 64" "d < 64" "a = 0 \<longrightarrow> 16 \<le> b" "a = 4 \<longrightarrow> b < 16"
  shows "DecodeRuneInString (chr (0xF0 + a) # chr (0x80 + b) # chr (0x80 + c) # chr (0x80 + d) # rest)
    = (a * 262144 + b * 4096 + c * 64 + d, 4)"
  using assms by (auto simp add: decode_simps)


lemma recompose3: "(r div 4096) * 4096 + (r div 64 mod 64) * 64 + r mod 64 = (r::nat)"
proof -
  have "r mod 4096 = 64 * (r div 64 mod 64) + r mod 64"
    using mod_mult2_eq [of r 64 64] by simp
  then show ?thesis
    using div_mult_mod_eq [of r 4096] by simp
qed

lemma recompose4:
  "(r div 262144) * 262144 + (r div 4096 mod 64) * 4096 + (r div 64 mod 64) * 64 + r mod 64 = (r::nat)"
proof -
  have "r mod 4096 = 64 * (r div 64 mod 64) + r mod 64"
    using mod_mult2_eq [of r 64 64] by simp
  moreover have "r mod 262144 = 4096 * (r div 4096 mod 64) + r mod 4096"
    using mod_mult2_eq [of r 4096 64] by simp
  ultimately show ?thesis
    using div_mult_mod_eq [of r 262144] by simp
qed

lemma DecodeRune_Encode1:
  assumes "r \<le> 0x7F"
  shows "DecodeRuneInString (EncodeRune r @ rest) = (r, 1)"
  using assms decode1 [of r rest] by (simp add: EncodeRune_def)

lemma DecodeRune_Encode2:
  assumes "0x7F < r" "r \<le> 0x7FF"
  shows "DecodeRuneInString (EncodeRune r @ rest) = (r, 2)"
proof -
  have "2 \<le> r div 64" using assms(1) div_le_mono [of 128 r 64] by simp
  moreover have "r div 64 < 32" using assms(2) by (simp add: less_mult_imp_div_less)
  moreover have "r mod 64 < 64" by simp
  ultimately show ?thesis
    using decode2 [of "r div 64" "r mod 64" rest] assms by (simp add: EncodeRune_def)
qed

lemma surrogate_aux:
  fixes r x y :: nat
  assumes "r = 53248 + 64 * x + y" "\<not> (55296 \<le> r \<and> r \<le> 57343)" "x < 64" "y < 64"
  shows "x < 32"
proof (rule ccontr)
  assume "\<not> x < 32"
  then have "32 \<le> x" by simp
  with assms(1) have "55296 \<le> r" by simp
  moreover from assms(1,3,4) have "r \<le> 57343" by simp
  ultimately show False using assms(2) by simp
qed

lemma DecodeRune_Encode3:
  assumes "0x7FF < r" "r \<le> 0xFFFF" "\<not> (0xD800 \<le> r \<and> r \<le> 0xDFFF)"
  shows "DecodeRuneInString (EncodeRune r @ rest) = (r, 3)"
proof -
  have a: "r div 4096 < 16" using assms(2) by (simp add: less_mult_imp_div_less)
  have b: "r div 64 mod 64 < 64" and c: "r mod 64 < 64" by simp_all
  have m: "r mod 4096 = 64 * (r div 64 mod 64) + r mod 64"
    using mod_mult2_eq [of r 64 64] by simp
  have lo: "r div 4096 = 0 \<longrightarrow> 32 \<le> r div 64 mod 64"
  proof
    assume "r div 4096 = 0"
    then have "r < 4096" by (simp add: div_eq_0_iff)
    then have "r div 64 mod 64 = r div 64" by (simp add: less_mult_imp_div_less)
    moreover from assms(1) have "32 \<le> r div 64" using div_le_mono [of 2048 r 64] by simp
    ultimately show "32 \<le> r div 64 mod 64" by simp
  qed
  have hi: "r div 4096 = 13 \<longrightarrow> r div 64 mod 64 < 32"
  proof
    assume d: "r div 4096 = 13"
    then have "r = 13 * 4096 + r mod 4096"
      using div_mult_mod_eq [of r 4096] by simp
    with m have e: "r = 53248 + 64 * (r div 64 mod 64) + r mod 64" by simp
    from assms(3) have "\<not> (55296 \<le> r \<and> r \<le> 57343)" by simp
    from surrogate_aux [OF e this b c] show "r div 64 mod 64 < 32" .
  qed
  from assms(3) have ns: "(55296 \<le> r \<and> r \<le> 57343) = False" by simp
  from assms(1,2) have enc: "EncodeRune r =
      [chr (0xE0 + r div 4096), chr (0x80 + r div 64 mod 64), chr (0x80 + r mod 64)]"
    by (simp add: EncodeRune_def MaxRune_def ns)
  show ?thesis
    unfolding enc using decode3 [OF a b c lo hi, of rest] by (simp add: recompose3)
qed

lemma DecodeRune_Encode4:
  assumes "0xFFFF < r" "r \<le> MaxRune"
  shows "DecodeRuneInString (EncodeRune r @ rest) = (r, 4)"
proof -
  have a: "r div 262144 < 5" using assms(2) by (simp add: less_mult_imp_div_less MaxRune_def)
  have b: "r div 4096 mod 64 < 64" and c: "r div 64 mod 64 < 64" and d: "r mod 64 < 64"
    by simp_all
  have lo: "r div 262144 = 0 \<longrightarrow> 16 \<le> r div 4096 mod 64"
  proof
    assume "r div 262144 = 0"
    then have "r < 262144" by (simp add: div_eq_0_iff)
    then have "r div 4096 mod 64 = r div 4096" by (simp add: less_mult_imp_div_less)
    moreover from assms(1) have "16 \<le> r div 4096" using div_le_mono [of 65536 r 4096] by simp
    ultimately show "16 \<le> r div 4096 mod 64" by simp
  qed
  have hi: "r div 262144 = 4 \<longrightarrow> r div 4096 mod 64 < 16"
  proof
    assume e: "r div 262144 = 4"
    have "r div 4096 < 272"
      using assms(2) by (simp add: less_mult_imp_div_less MaxRune_def)
    moreover have "r div 4096 = 64 * (r div 4096 div 64) + r div 4096 mod 64" by simp
    moreover have "r div 4096 div 64 = r div 262144" by (simp add: div_mult2_eq [symmetric])
    ultimately have "64 * 4 + r div 4096 mod 64 < 272" using e by simp
    then show "r div 4096 mod 64 < 16" by simp
  qed
  from assms have enc: "EncodeRune r =
      [chr (0xF0 + r div 262144), chr (0x80 + r div 4096 mod 64),
       chr (0x80 + r div 64 mod 64), chr (0x80 + r mod 64)]"
    by (simp add: EncodeRune_def MaxRune_def)
  show ?thesis
    unfolding enc using decode4 [OF a b c d lo hi, of rest] by (simp add: recompose4)
qed

lemma DecodeRune_Encode:
  assumes "valid_rune r"
  shows "DecodeRuneInString (EncodeRune r @ rest) = (r, length (EncodeRune r))"
proof -
  consider "r \<le> 0x7F" | "0x7F < r" "r \<le> 0x7FF" | "0x7FF < r" "r \<le> 0xFFFF" | "0xFFFF < r"
    by linarith
  then show ?thesis
  proof cases
    case 1
    then show ?thesis using DecodeRune_Encode1 [of r rest] by (simp add: EncodeRune_def)
  next
    case 2
    then show ?thesis using DecodeRune_Encode2 [of r rest] by (simp add: EncodeRune_def)
  next
    case 3
    from assms have ns: "(55296 \<le> r \<and> r \<le> 57343) = False" by (simp add: valid_rune_def)
    from 3 assms show ?thesis using DecodeRune_Encode3 [of r rest]
      by (simp add: EncodeRune_def valid_rune_def MaxRune_def ns)
  next
    case 4
    with assms show ?thesis using DecodeRune_Encode4 [of r rest]
      by (simp add: EncodeRune_def valid_rune_def MaxRune_def)
  qed
qed

lemma EncodeRune_nonempty: "EncodeRune r \<noteq> []"
  by (simp add: EncodeRune_def)

lemma runes_Nil [simp]: "runes [] = []"
  by (simp add: runes.simps)

lemma runes_Encode_append:
  assumes "valid_rune r"
  shows "runes (EncodeRune r @ rest) = r # runes rest"
  using DecodeRune_Encode [OF assms, of rest] EncodeRune_nonempty [of r]
  by (subst runes.simps) simp

lemma runes_concat_Encode:
  "list_all valid_rune rs \<Longrightarrow> runes (concat (map EncodeRune rs)) = rs"
  by (induction rs) (simp_all add: runes_Encode_append)


lemma byte_less_256: "byte c < 256"
proof -
  have "byte c = byte c mod 256" by (simp add: of_char_mod_256)
  also have "\<dots> < 256" by simp
  finally show ?thesis .
qed

lemma valid_RuneError [simp]: "valid_rune RuneError"
  by (simp add: valid_rune_def RuneError_def MaxRune_def)

lemma valid2:
  fixes s0 s1 :: nat
  shows "valid_rune ((s0 mod 32) * 64 + s1 mod 64)"
proof -
  have "s0 mod 32 < 32" "s1 mod 64 < 64" by simp_all
  then have "(s0 mod 32) * 64 + s1 mod 64 < 2048" by linarith
  then show ?thesis by (simp add: valid_rune_def MaxRune_def)
qed

lemma valid3_aux:
  fixes a b c :: nat
  assumes "a < 16" "b < 64" "c < 64" "a = 13 \<longrightarrow> b < 32"
  shows "valid_rune (a * 4096 + b * 64 + c)"
proof -
  consider "a \<le> 12" | "a = 13" | "14 \<le> a" by linarith
  then show ?thesis
  proof cases
    case 1
    with assms have "a * 4096 + b * 64 + c < 55296" by linarith
    then show ?thesis by (simp add: valid_rune_def MaxRune_def)
  next
    case 2
    with assms have "a * 4096 + b * 64 + c < 55296" by simp
    then show ?thesis by (simp add: valid_rune_def MaxRune_def)
  next
    case 3
    with assms have "57343 < a * 4096 + b * 64 + c" "a * 4096 + b * 64 + c \<le> 1114111"
      by linarith+
    then show ?thesis by (simp add: valid_rune_def MaxRune_def)
  qed
qed

lemma valid3:
  fixes s0 s1 s2 :: nat
  assumes "0xE0 \<le> s0" "s0 < 0xF0" "\<not> s1 < accept_lo s0" "\<not> accept_hi s0 < s1"
  shows "valid_rune ((s0 mod 16) * 4096 + (s1 mod 64) * 64 + s2 mod 64)"
proof -
  define a where "a = s0 - 224"
  define b where "b = s1 - 128"
  from assms(1,2) have s0: "s0 = 224 + a" and a: "a < 16" by (simp_all add: a_def)
  from assms(3,4) have "128 \<le> s1" "s1 \<le> 191"
    by (simp_all add: accept_lo_def accept_hi_def split: if_splits)
  then have s1: "s1 = 128 + b" and b: "b < 64" by (simp_all add: b_def)
  have hi: "a = 13 \<longrightarrow> b < 32"
    using assms(4) by (auto simp add: s0 s1 accept_hi_def)
  have "valid_rune (a * 4096 + b * 64 + s2 mod 64)"
    using a b hi by (intro valid3_aux) simp_all
  then show ?thesis
    by (simp add: s0 s1 lead3_mod cont_mod a b)
qed

lemma valid4_aux:
  fixes a b c d :: nat
  assumes "a < 5" "b < 64" "c < 64" "d < 64" "a = 0 \<longrightarrow> 16 \<le> b" "a = 4 \<longrightarrow> b < 16"
  shows "valid_rune (a * 262144 + b * 4096 + c * 64 + d)"
proof -
  consider "a = 0" | "1 \<le> a" "a \<le> 3" | "a = 4" using assms(1) by linarith
  then show ?thesis
  proof cases
    case 1
    with assms have "57343 < a * 262144 + b * 4096 + c * 64 + d"
      "a * 262144 + b * 4096 + c * 64 + d \<le> 1114111"
      by simp_all
    then show ?thesis by (simp add: valid_rune_def MaxRune_def)
  next
    case 2
    with assms have "57343 < a * 262144 + b * 4096 + c * 64 + d"
      "a * 262144 + b * 4096 + c * 64 + d \<le> 1114111"
      by linarith+
    then show ?thesis by (simp add: valid_rune_def MaxRune_def)
  next
    case 3
    with assms have "57343 < a * 262144 + b * 4096 + c * 64 + d"
      "a * 262144 + b * 4096 + c * 64 + d \<le> 1114111"
      by simp_all
    then show ?thesis by (simp add: valid_rune_def MaxRune_def)
  qed
qed

lemma valid4:
  fixes s0 s1 s2 s3 :: nat
  assumes "0xF0 \<le> s0" "\<not> 0xF4 < s0" "\<not> s1 < accept_lo s0" "\<not> accept_hi s0 < s1"
  shows "valid_rune ((s0 mod 8) * 262144 + (s1 mod 64) * 4096 + (s2 mod 64) * 64 + s3 mod 64)"
proof -
  define a where "a = s0 - 240"
  define b where "b = s1 - 128"
  from assms(1,2) have s0: "s0 = 240 + a" and a: "a < 5" by (simp_all add: a_def)
  from assms(3,4) have "128 \<le> s1" "s1 \<le> 191"
    by (simp_all add: accept_lo_def accept_hi_def split: if_splits)
  then have s1: "s1 = 128 + b" and b: "b < 64" by (simp_all add: b_def)
  have lo: "a = 0 \<longrightarrow> 16 \<le> b"
    using assms(3) by (auto simp add: s0 s1 accept_lo_def)
  have hi: "a = 4 \<longrightarrow> b < 16"
    using assms(4) by (auto simp add: s0 s1 accept_hi_def)
  have "valid_rune (a * 262144 + b * 4096 + (s2 mod 64) * 64 + s3 mod 64)"
    using a b lo hi by (intro valid4_aux) simp_all
  moreover from a have "a < 8" by simp
  ultimately show ?thesis
    by (simp add: s0 s1 lead4_mod cont_mod b)
qed

lemma DecodeRune_valid: "valid_rune (fst (DecodeRuneInString s))"
proof (cases s)
  case Nil
  then show ?thesis by simp
next
  case (Cons c0 t)
  define s0 where "s0 = byte c0"
  consider "s0 < 0x80" | "0x80 \<le> s0" "s0 < 0xC2 \<or> 0xF4 < s0" | "0xC2 \<le> s0" "s0 < 0xE0"
    | "0xE0 \<le> s0" "s0 < 0xF0" | "0xF0 \<le> s0" "\<not> 0xF4 < s0"
    by linarith
  then show ?thesis
  proof cases
    case 1
    then show ?thesis
      by (simp add: Cons DecodeRuneInString.simps(2) s0_def [symmetric] valid_rune_def MaxRune_def)
  next
    case 2
    then show ?thesis
      by (auto simp add: Cons DecodeRuneInString.simps(2) s0_def [symmetric])
  next
    case 3
    then show ?thesis
      by (simp add: Cons DecodeRuneInString.simps(2) s0_def [symmetric] Let_def seq_size_def valid2)
  next
    case 4
    then show ?thesis
      by (simp add: Cons DecodeRuneInString.simps(2) s0_def [symmetric] Let_def seq_size_def valid3)
  next
    case 5
    then show ?thesis
      by (simp add: Cons DecodeRuneInString.simps(2) s0_def [symmetric] Let_def seq_size_def valid3 valid4)
  qed
qed

lemma runes_valid: "list_all valid_rune (runes s)"
proof (induction s rule: runes.induct)
  case (1 s)
  show ?case
  proof (cases "s = []")
    case True
    then show ?thesis by simp
  next
    case False
    with "1.IH" show ?thesis
      by (subst runes.simps) (simp add: DecodeRune_valid)
  qed
qed

section \<open>Lower-casing twice\<close>

lemma runes_Cons_ascii: "byte c < 0x80 \<Longrightarrow> runes (c # s) = byte c # runes s"
  by (subst runes.simps) (simp add: DecodeRuneInString.simps(2))

lemma runes_ascii: "isASCII s \<Longrightarrow> runes s = map byte s"
  by (induction s) (simp_all add: runes_Cons_ascii)

lemma Encode_lower_ascii:
  "byte c < 0x80 \<Longrightarrow> EncodeRune (unicode_ToLower T (byte c)) = [lowerByte c]"
  by (simp add: EncodeRune_def unicode_ToLower_def lowerByte_def)

lemma Map_lower_ascii: "isASCII s \<Longrightarrow> strings_Map (unicode_ToLower T) s = map lowerByte s"
proof (induction s)
  case Nil
  then show ?case by (simp add: strings_Map_def)
next
  case (Cons c s)
  then have "strings_Map (unicode_ToLower T) s = map lowerByte s" by simp
  with Cons.prems show ?case
    by (simp add: strings_Map_def runes_Cons_ascii Encode_lower_ascii)
qed

lemma ToLower_Map: "ToLower T s = strings_Map (unicode_ToLower T) s"
  by (simp add: ToLower_def Map_lower_ascii)

lemma runes_Map:
  assumes "\<And>r. valid_rune r \<Longrightarrow> valid_rune (f r)"
  shows "runes (strings_Map f s) = map f (runes s)"
proof -
  have "list_all valid_rune (map f (runes s))"
    using runes_valid [of s] assms by (simp add: list_all_iff)
  from runes_concat_Encode [OF this] show ?thesis
    by (simp add: strings_Map_def comp_def)
qed

lemma ToLower_idem:
  assumes "lower_closed T"
  shows "ToLower T (ToLower T s) = ToLower T s"
proof -
  let ?f = "unicode_ToLower T"
  from assms have v: "\<And>r. valid_rune r \<Longrightarrow> valid_rune (?f r)"
    and i: "\<And>r. valid_rune r \<Longrightarrow> ?f (?f r) = ?f r"
    by (simp_all add: lower_closed_def)
  have "strings_Map ?f (strings_Map ?f s) = concat (map (\<lambda>c. EncodeRune (?f c)) (map ?f (runes s)))"
    by (simp add: strings_Map_def [of ?f "strings_Map ?f s"] runes_Map [of ?f, OF v])
  also have "\<dots> = concat (map (\<lambda>c. EncodeRune (?f c)) (runes s))"
    using runes_valid [of s] i by (simp add: list_all_iff comp_def cong: map_cong)
  finally show ?thesis
    by (simp add: ToLower_Map strings_Map_def)
qed

lemma lower_closed_latin1: "lower_closed latin1"
  by (auto simp: lower_closed_def unicode_ToLower_def latin1_def latin1_upper_range_def
      valid_rune_def MaxRune_def)

section \<open>Filtering\<close>

lemma filterByService_loop_eq:
  "filterByService_loop T service result data =
    result @ concat (map ListItem
      (filter (\<lambda>svc. service = [] \<or> EqualFold T (Type svc) service) data))"
  by (induction data arbitrary: result) simp_all

text \<open>
  C1: for every list of batches and every service string, \<^verbatim>\<open>filterByService\<close> returns the
  line items, concatenated in source order, of exactly the batches whose type matches the
  service string case-insensitively (\<^verbatim>\<open>strings.EqualFold\<close>), the empty service string
  matching every batch; so with the empty string it returns all items of all batches in
  their order, and with a service string that matches the type of exactly one batch it
  returns that batch's items and no others.
\<close>

theorem filterByService_spec:
  "filterByService T data service =
     concat (map ListItem (filter (\<lambda>svc. service = [] \<or> EqualFold T (Type svc) service) data))
   \<and> (service = [] \<longrightarrow> filterByService T data service = concat (map ListItem data))
   \<and> (service \<noteq> [] \<and> data = pre @ [b] @ post \<and> EqualFold T (Type b) service
        \<and> list_all (\<lambda>svc. \<not> EqualFold T (Type svc) service) (pre @ post)
       \<longrightarrow> filterByService T data service = ListItem b)"
  by (auto simp: filterByService_def filterByService_loop_eq list_all_iff filter_empty_conv
      intro!: arg_cong[where f=concat])

theorem filterByService_spec_witness:
  "filterByService latin1 [metro_batch, cptm_batch] ''METRO'' = ListItem metro_batch
   \<and> filterByService latin1 [metro_batch, cptm_batch] [] = ListItem metro_batch @ ListItem cptm_batch"
  using filterByService_spec [of latin1 "[metro_batch, cptm_batch]" "''METRO''" "[]" metro_batch "[cptm_batch]"]
    filterByService_spec [of latin1 "[metro_batch, cptm_batch]" "[]"]
  by (simp add: metro_batch_def cptm_batch_def batch_def)

section \<open>The status colors\<close>

text \<open>
  C3, as stated, fails: \<^verbatim>\<open>VERDE\<close> is none of the four known status-color strings, and
  it is mapped to green, not to the reset code.
\<close>

theorem getColorForStatus_reset_counterexample:
  "''VERDE'' \<notin> set known_status_colors
   \<and> getColorForStatus latin1 ''VERDE'' = colorGreen
   \<and> colorGreen \<noteq> colorReset"
  by code_simp

text \<open>
  C3, amended: the mapping sends \<^verbatim>\<open>verde\<close> to green, \<^verbatim>\<open>amarelo\<close> to yellow, \<^verbatim>\<open>vermelho\<close>
  to red and \<^verbatim>\<open>cinza\<close> to dim, and every string whose lower-cased form
  (\<^verbatim>\<open>strings.ToLower\<close>) is none of these four to the reset code.
\<close>

theorem getColorForStatus_mapping:
  "getColorForStatus T ''verde'' = colorGreen
   \<and> getColorForStatus T ''amarelo'' = colorYellow
   \<and> getColorForStatus T ''vermelho'' = colorRed
   \<and> getColorForStatus T ''cinza'' = colorDim
   \<and> (ToLower T s \<notin> set known_status_colors \<longrightarrow> getColorForStatus T s = colorReset)"
  by (simp add: known_status_colors_def getColorForStatus_def ToLower_def lowerByte_def)

theorem getColorForStatus_mapping_witness:
  "ToLower latin1 ''azul'' \<notin> set known_status_colors
   \<and> getColorForStatus latin1 ''azul'' = colorReset"
  using getColorForStatus_mapping [of latin1 "''azul''"]
  by (simp add: known_status_colors_def ToLower_def lowerByte_def)

text \<open>
  C10: the status-color mapping is case-insensitive: \<^verbatim>\<open>getColorForStatus(s)\<close> equals
  \<^verbatim>\<open>getColorForStatus\<close> of the lower-cased \<^verbatim>\<open>s\<close>, for every string and every case table
  closed under lower-casing; so \<^verbatim>\<open>Verde\<close> and \<^verbatim>\<open>VERDE\<close> map to the green code of
  \<^verbatim>\<open>verde\<close>.
\<close>

theorem getColorForStatus_case_insensitive:
  assumes "lower_closed T"
  shows "getColorForStatus T s = getColorForStatus T (ToLower T s)"
  by (simp add: getColorForStatus_def ToLower_idem [OF assms])

theorem getColorForStatus_case_insensitive_witness:
  "lower_closed latin1
   \<and> getColorForStatus latin1 ''Verde'' = getColorForStatus latin1 (ToLower latin1 ''Verde'')
   \<and> getColorForStatus latin1 ''VERDE'' = getColorForStatus latin1 (ToLower latin1 ''VERDE'')
   \<and> ToLower latin1 ''Verde'' = ''verde'' \<and> ToLower latin1 ''VERDE'' = ''verde''
   \<and> getColorForStatus latin1 ''verde'' = colorGreen"
proof -
  have "ToLower latin1 ''Verde'' = ''verde''" "ToLower latin1 ''VERDE'' = ''verde''"
    "getColorForStatus latin1 ''verde'' = colorGreen"
    by code_simp+
  with lower_closed_latin1
    getColorForStatus_case_insensitive [OF lower_closed_latin1, of "''Verde''"]
    getColorForStatus_case_insensitive [OF lower_closed_latin1, of "''VERDE''"]
  show ?thesis by simp
qed

section \<open>Status normalization\<close>

text \<open>
  C5, as stated, fails: the phrase in upper case is none of the known plural phrases
  (however they are capitalised), is left unchanged by trimming, and is not returned
  unchanged: it is mapped to the singular form.
\<close>

theorem normalizeStatus_other_counterexample:
  "TrimSpace OPERACOES_NORMAIS = OPERACOES_NORMAIS
   \<and> OPERACOES_NORMAIS \<notin> set plural_phrases
   \<and> normalizeStatus latin1 OPERACOES_NORMAIS = Operacao_Normal
   \<and> Operacao_Normal \<noteq> OPERACOES_NORMAIS"
  by code_simp

text \<open>
  C5, amended: \<^verbatim>\<open>normalizeStatus\<close> trims its input; it maps every input whose trimmed and
  lower-cased form (\<^verbatim>\<open>strings.ToLower\<close>) is one of the two plural phrases to the singular
  canonical form of that phrase, and returns every other input unchanged except for the
  trimming. (The witness has the example of the specification.)
\<close>

theorem normalizeStatus_spec:
  "(ToLower T (TrimSpace s) = operacoes_encerradas \<longrightarrow> normalizeStatus T s = Operacao_Encerrada)
   \<and> (ToLower T (TrimSpace s) = operacoes_normais \<longrightarrow> normalizeStatus T s = Operacao_Normal)
   \<and> (ToLower T (TrimSpace s) \<noteq> operacoes_encerradas \<and> ToLower T (TrimSpace s) \<noteq> operacoes_normais
        \<longrightarrow> normalizeStatus T s = TrimSpace s)"
  by (simp add: normalizeStatus_def Let_def operacoes_encerradas_def operacoes_normais_def)

theorem normalizeStatus_spec_witness:
  "ToLower latin1 (TrimSpace Operacoes_Normais) = operacoes_normais
   \<and> normalizeStatus latin1 Operacoes_Normais = Operacao_Normal
   \<and> ToLower latin1 (TrimSpace Operacoes_Encerradas) = operacoes_encerradas
   \<and> normalizeStatus latin1 Operacoes_Encerradas = Operacao_Encerrada
   \<and> ToLower latin1 (TrimSpace ''  Velocidade Reduzida '') \<noteq> operacoes_encerradas
   \<and> ToLower latin1 (TrimSpace ''  Velocidade Reduzida '') \<noteq> operacoes_normais
   \<and> normalizeStatus latin1 ''  Velocidade Reduzida '' = ''Velocidade Reduzida''"
proof -
  have n: "ToLower latin1 (TrimSpace Operacoes_Normais) = operacoes_normais"
    by code_simp
  have e: "ToLower latin1 (TrimSpace Operacoes_Encerradas) = operacoes_encerradas"
    by code_simp
  have v: "ToLower latin1 (TrimSpace ''  Velocidade Reduzida '') \<noteq> operacoes_encerradas"
    "ToLower latin1 (TrimSpace ''  Velocidade Reduzida '') \<noteq> operacoes_normais"
    "TrimSpace ''  Velocidade Reduzida '' = ''Velocidade Reduzida''"
    by code_simp+
  from n e v normalizeStatus_spec [of latin1 Operacoes_Normais]
    normalizeStatus_spec [of latin1 Operacoes_Encerradas]
    normalizeStatus_spec [of latin1 "''  Velocidade Reduzida ''"]
  show ?thesis by metis
qed

section \<open>The command line\<close>

lemma recognized_flag_prefix: "recognized_flag a \<Longrightarrow> HasPrefix a ''-''"
  by (auto simp: recognized_flag_def HasPrefix_def)

lemma parse_args_unknown:
  "list_ex unknown_flag argv \<Longrightarrow>
     \<exists>r. parse_args fl argv = Inl r \<and> exit_code r = 1 \<and> stderr r \<noteq> [] \<and> stdout r = [] \<and> \<not> requested r"
proof (induction argv arbitrary: fl)
  case Nil
  then show ?case by simp
next
  case (Cons a argv)
  show ?case
  proof (cases "unknown_flag a")
    case True
    then show ?thesis by (simp add: unknown_flag_def recognized_flag_def)
  next
    case False
    with Cons.prems have "list_ex unknown_flag argv" by simp
    from Cons.IH [OF this] False show ?thesis
      by (auto simp: unknown_flag_def recognized_flag_def)
  qed
qed

lemma parse_args_known:
  "\<not> list_ex unknown_flag argv \<Longrightarrow>
     parse_args fl argv = Inr
       \<lparr> jsonOutput = jsonOutput fl \<or> ''-j'' \<in> set argv \<or> ''--json'' \<in> set argv,
         showVersion = showVersion fl \<or> ''-v'' \<in> set argv \<or> ''--version'' \<in> set argv,
         showCopyright = showCopyright fl \<or> ''--copyright'' \<in> set argv,
         showHelp = showHelp fl \<or> ''-h'' \<in> set argv \<or> ''--help'' \<in> set argv,
         args = args fl @ positionals argv \<rparr>"
proof (induction argv arbitrary: fl)
  case Nil
  then show ?case by (simp add: positionals_def)
next
  case (Cons a argv)
  from Cons.prems have known: "\<not> unknown_flag a" and rest: "\<not> list_ex unknown_flag argv"
    by simp_all
  show ?case
  proof (cases "recognized_flag a")
    case True
    then have "HasPrefix a ''-''" by (rule recognized_flag_prefix)
    with True show ?thesis
      by (auto simp: Cons.IH [OF rest] recognized_flag_def positionals_def)
  next
    case False
    with known have np: "\<not> HasPrefix a ''-''" by (simp add: unknown_flag_def)
    with False show ?thesis
      by (auto simp: Cons.IH [OF rest] recognized_flag_def positionals_def)
  qed
qed

lemma isValidService_loop_ex:
  "isValidService_loop T service vs = list_ex (\<lambda>v. EqualFold T v service) vs"
  by (induction vs) simp_all

lemma isValidService_in_valid_set: "isValidService T a = in_valid_set T a"
  by (simp add: isValidService_def in_valid_set_def isValidService_loop_ex)


lemma main_unknown_flag:
  assumes "list_ex unknown_flag argv"
  shows "exit_code (main T argv reply) = 1 \<and> stderr (main T argv reply) \<noteq> []
    \<and> stdout (main T argv reply) = [] \<and> \<not> requested (main T argv reply)"
proof -
  from parse_args_unknown [OF assms, of no_flags] obtain r where
    "parse_args no_flags argv = Inl r" "exit_code r = 1" "stderr r \<noteq> []" "stdout r = []" "\<not> requested r"
    by blast
  then show ?thesis by (simp add: main_def)
qed

lemma info_flag_sets:
  "list_ex info_flag argv =
    (''-v'' \<in> set argv \<or> ''--version'' \<in> set argv \<or> ''--copyright'' \<in> set argv
     \<or> ''-h'' \<in> set argv \<or> ''--help'' \<in> set argv)"
  by (auto simp: list_ex_iff info_flag_def)

lemma main_no_info:
  assumes known: "\<not> list_ex unknown_flag argv" and noinfo: "\<not> list_ex info_flag argv"
  shows "main T argv reply =
    (let serviceFilter = requested_service argv in
     if positionals argv \<noteq> [] \<and> \<not> isValidService T serviceFilter then
       \<lparr> exit_code = 1, stdout = [],
         stderr = ''Error: invalid service '' @ [squote] @ serviceFilter @ [squote] @ ''\<newline>''
           @ ''Valid services: '' @ Join validServices '', '' @ ''\<newline>'',
         requested = False \<rparr>
     else
       case fetchLineStatuses reply of
         Inl err \<Rightarrow>
           \<lparr> exit_code = 1, stdout = [], stderr = ''Error: '' @ err @ ''\<newline>'', requested = True \<rparr>
       | Inr apiResp \<Rightarrow>
           if \<not> api_Status apiResp then
             \<lparr> exit_code = 1, stdout = [],
               stderr = ''Error: API returned unsuccessful status\<newline>'', requested = True \<rparr>
           else
             let lines = filterByService T (api_Data apiResp) serviceFilter in
             if length lines = 0 then
               \<lparr> exit_code = 1, stdout = [], stderr = ''No lines found\<newline>'', requested = True \<rparr>
             else
               \<lparr> exit_code = 0,
                 stdout = ''\<newline>''
                   @ (if ''-j'' \<in> set argv \<or> ''--json'' \<in> set argv
                      then printJSON T lines else printTable T lines),
                 stderr = [], requested = True \<rparr>)"
proof -
  from noinfo have ni: "''-v'' \<notin> set argv" "''--version'' \<notin> set argv" "''--copyright'' \<notin> set argv"
    "''-h'' \<notin> set argv" "''--help'' \<notin> set argv"
    by (simp_all add: info_flag_sets)
  show ?thesis
    unfolding main_def parse_args_known [OF known]
    by (cases "positionals argv")
      (simp_all add: no_flags_def ni requested_service_def Let_def split: sum.splits)
qed

lemma main_invalid_service:
  assumes a: "\<not> list_ex info_flag argv" "positionals argv \<noteq> []"
    "\<not> in_valid_set T (hd (positionals argv))"
  shows "exit_code (main T argv reply) = 1 \<and> stderr (main T argv reply) \<noteq> []
      \<and> stdout (main T argv reply) = [] \<and> \<not> requested (main T argv reply)"
proof (cases "list_ex unknown_flag argv")
  case True
  then show ?thesis using main_unknown_flag by blast
next
  case False
  from a have "requested_service argv = hd (positionals argv)"
    by (cases "positionals argv") (simp_all add: requested_service_def)
  with a show ?thesis
    by (simp add: main_no_info [OF False a(1)] isValidService_in_valid_set)
qed

text \<open>
  C7, as stated, fails: with \<^verbatim>\<open>--help\<close> on the command line, a positional argument
  outside the valid set is never looked at; the run prints the usage and exits with
  code 0, nothing on standard error.
\<close>

theorem main_rejects_counterexample:
  "positionals [''bogus'', ''--help''] = [''bogus'']
   \<and> \<not> in_valid_set latin1 ''bogus''
   \<and> exit_code (main latin1 [''bogus'', ''--help''] (TransportError [])) = 0
   \<and> stderr (main latin1 [''bogus'', ''--help''] (TransportError [])) = []"
  by (simp add: positionals_def HasPrefix_def in_valid_set_def validServices_def main_def no_flags_def)

text \<open>
  C7, amended: every invocation that holds an argument starting with \<^verbatim>\<open>-\<close> that is no
  recognized flag, and every invocation without a help, version or copyright flag whose
  first positional argument is not in the fixed valid set (compared case-insensitively),
  exits with code 1 after writing a non-empty message to standard error, without issuing
  the HTTP request.
\<close>

theorem main_rejects:
  "(list_ex unknown_flag argv \<longrightarrow>
      exit_code (main T argv reply) = 1 \<and> stderr (main T argv reply) \<noteq> []
      \<and> \<not> requested (main T argv reply))
   \<and> (\<not> list_ex info_flag argv \<and> positionals argv \<noteq> []
        \<and> \<not> in_valid_set T (hd (positionals argv)) \<longrightarrow>
      exit_code (main T argv reply) = 1 \<and> stderr (main T argv reply) \<noteq> []
      \<and> \<not> requested (main T argv reply))"
  using main_unknown_flag [of argv T reply] main_invalid_service [of argv T reply]
  by blast

theorem main_rejects_witness:
  "list_ex unknown_flag [''metro'', ''--color'']
   \<and> \<not> list_ex info_flag [''Bogus'', ''-j''] \<and> positionals [''Bogus'', ''-j''] = [''Bogus'']
   \<and> \<not> in_valid_set latin1 ''Bogus''
   \<and> exit_code (main latin1 [''metro'', ''--color''] (TransportError [])) = 1
   \<and> stderr (main latin1 [''metro'', ''--color''] (TransportError [])) \<noteq> []
   \<and> \<not> requested (main latin1 [''metro'', ''--color''] (TransportError []))
   \<and> exit_code (main latin1 [''Bogus'', ''-j''] (TransportError [])) = 1
   \<and> stderr (main latin1 [''Bogus'', ''-j''] (TransportError [])) \<noteq> []
   \<and> \<not> requested (main latin1 [''Bogus'', ''-j''] (TransportError []))"
  using main_rejects [of "[''metro'', ''--color'']" latin1 "TransportError []"]
    main_rejects [of "[''Bogus'', ''-j'']" latin1 "TransportError []"]
  by (simp add: unknown_flag_def recognized_flag_def info_flag_def positionals_def HasPrefix_def
      in_valid_set_def validServices_def)

text \<open>
  C8: whenever the request was issued and the response was fetched and decoded, and
  filtering its batches by the requested service yields no line item, the run writes an
  error message to standard error, exits with code 1 and writes nothing (no table, no
  JSON) to standard output.
\<close>

theorem main_empty_result:
  assumes "fetchLineStatuses reply = Inr apiResp"
    and "requested (main T argv reply)"
    and "filterByService T (api_Data apiResp) (requested_service argv) = []"
  shows "exit_code (main T argv reply) = 1 \<and> stderr (main T argv reply) \<noteq> []
    \<and> stdout (main T argv reply) = []"
proof (cases "list_ex unknown_flag argv")
  case True
  then show ?thesis using main_unknown_flag by blast
next
  case known: False
  show ?thesis
  proof (cases "list_ex info_flag argv")
    case True
    then have "\<not> requested (main T argv reply)"
      unfolding main_def parse_args_known [OF known]
      by (auto simp: no_flags_def info_flag_sets)
    with assms(2) show ?thesis by simp
  next
    case False
    from assms show ?thesis
      by (auto simp: main_no_info [OF known False] Let_def split: if_splits)
  qed
qed

theorem main_empty_result_witness:
  "fetchLineStatuses metro_reply = Inr metro_only
   \<and> requested (main latin1 [''cptm'', ''--json''] metro_reply)
   \<and> filterByService latin1 (api_Data metro_only) (requested_service [''cptm'', ''--json'']) = []
   \<and> exit_code (main latin1 [''cptm'', ''--json''] metro_reply) = 1
   \<and> stderr (main latin1 [''cptm'', ''--json''] metro_reply) = ''No lines found\<newline>''
   \<and> stdout (main latin1 [''cptm'', ''--json''] metro_reply) = []"
  using main_empty_result [of metro_reply metro_only latin1 "[''cptm'', ''--json'']"]
  by (simp add: metro_reply_def metro_only_def main_def no_flags_def HasPrefix_def isValidService_def
      validServices_def filterByService_def metro_batch_def batch_def requested_service_def
      positionals_def)

section \<open>Line names\<close>

lemma Split_nonempty: "Split s sep \<noteq> []"
  by (induction s) simp_all

lemma Split_no_sep: "sep \<notin> set s \<Longrightarrow> Split s sep = [s]"
  by (induction s) auto

lemma Split_sep: "sep \<in> set s \<Longrightarrow> tl (Split s sep) \<noteq> []"
  by (induction s) (auto simp: Split_nonempty)

lemma last_Split: "last (Split s sep) = rev (takeWhile (\<lambda>c. c \<noteq> sep) (rev s))"
proof (induction s)
  case Nil
  then show ?case by simp
next
  case (Cons c s)
  show ?case
  proof (cases "c = sep")
    case True
    then show ?thesis
      using Cons.IH by (simp add: Split_nonempty takeWhile_append)
  next
    case False
    show ?thesis
    proof (cases "sep \<in> set s")
      case True
      then have "tl (Split s sep) \<noteq> []" by (rule Split_sep)
      then have "last (Split (c # s) sep) = last (Split s sep)"
        using False by (simp add: last_tl)
      with True Cons.IH show ?thesis
        by (auto simp add: takeWhile_append)
    next
      case no: False
      then show ?thesis
        using False by (simp add: Split_no_sep takeWhile_append)
    qed
  qed
qed

lemma Split_last_part:
  "Split line CHR ''-'' ! (length (Split line CHR ''-'') - 1) = after_last_dash line"
  using last_Split [of line "CHR ''-''"] Split_nonempty [of line "CHR ''-''"]
  by (simp add: last_conv_nth after_last_dash_def)

lemma Split_last_part': 
  "Split line CHR ''-'' ! (length (Split line CHR ''-'') - Suc 0) = after_last_dash line"
  using Split_last_part [of line] by simp

lemma after_last_dash_no_dash: "CHR ''-'' \<notin> set line \<Longrightarrow> after_last_dash line = line"
proof -
  assume "CHR ''-'' \<notin> set line"
  then have "takeWhile (\<lambda>c. c \<noteq> CHR ''-'') (rev line) = rev line"
    by (intro takeWhile_eq_all_conv [THEN iffD2]) auto
  then show ?thesis by (simp only: after_last_dash_def rev_rev_ident)
qed

lemma formatLineName_ascii_initial:
  assumes "TrimSpace (after_last_dash line) = [] \<or> byte (hd (TrimSpace (after_last_dash line))) < 0x80"
  shows "formatLineName T line = spec_formatLineName T line"
proof (cases "TrimSpace (after_last_dash line)")
  case Nil
  then show ?thesis
    by (simp add: formatLineName_def spec_formatLineName_def title_case_def Split_last_part')
next
  case (Cons c rest)
  with assms have a: "byte c < 0x80" by simp
  then have "DecodeRuneInString (c # rest) = (byte c, 1)"
    by (simp add: DecodeRuneInString.simps(2))
  moreover from a have "EncodeRune (byte c) = [c]"
    by (simp add: EncodeRune_def)
  ultimately show ?thesis
    by (simp add: formatLineName_def spec_formatLineName_def title_case_def Split_last_part' Cons)
qed

lemma TrimSpace_Agata: "TrimSpace Agata = Agata" "TrimSpace agata = agata"
  by (simp_all add: Agata_def agata_def go_eval)

text \<open>
  C4: the examples of the claim hold (\<^verbatim>\<open>Linha 1-Azul\<close> gives \<^verbatim>\<open>Azul\<close>, an empty trailing
  segment gives the empty string), but the transform is not the title-casing of the
  trimmed text after the last \<^verbatim>\<open>-\<close>: for \<^verbatim>\<open>Linha 14-\<close> followed by \<^verbatim>\<open>Agata\<close> written with a
  capital a-acute, that is the name itself, and \<^verbatim>\<open>formatLineName\<close> returns a capital
  a-tilde, \<^verbatim>\<open>U+FFFD\<close> and \<^verbatim>\<open>gata\<close>. (By \<open>formatLineName_ascii_initial\<close> the two agree
  whenever the trimmed segment is empty or starts with an ASCII byte.)
\<close>

theorem formatLineName_garbles:
  "formatLineName latin1 ''Linha 1-Azul'' = ''Azul''
   \<and> formatLineName latin1 ''Linha 1-'' = []
   \<and> after_last_dash Linha_14_Agata = Agata
   \<and> spec_formatLineName latin1 Linha_14_Agata = Agata
   \<and> formatLineName latin1 Linha_14_Agata = garbled_Agata
   \<and> garbled_Agata \<noteq> Agata"
proof -
  have "formatLineName latin1 ''Linha 1-Azul'' = ''Azul''" "formatLineName latin1 ''Linha 1-'' = []"
    by (simp_all add: formatLineName_def go_eval)
  moreover have a: "after_last_dash Linha_14_Agata = Agata"
    by (simp add: after_last_dash_def Linha_14_Agata_def Agata_def)
  moreover have "title_case latin1 Agata = Agata"
    by (simp add: title_case_def Agata_def go_eval)
  then have "spec_formatLineName latin1 Linha_14_Agata = Agata"
    by (simp add: spec_formatLineName_def a TrimSpace_Agata)
  moreover have "formatLineName latin1 Linha_14_Agata = garbled_Agata"
    by (simp add: formatLineName_def Linha_14_Agata_def Agata_def garbled_Agata_def go_eval)
  moreover have "garbled_Agata \<noteq> Agata"
    by (simp add: garbled_Agata_def Agata_def)
  ultimately show ?thesis by simp
qed

text \<open>
  C9: an input without \<^verbatim>\<open>-\<close> is not mapped to the empty string (\<^verbatim>\<open>linha\<close> gives
  \<^verbatim>\<open>Linha\<close>), but the result is not the title-casing of the trimmed input when it starts
  with a letter outside ASCII: for \<^verbatim>\<open>agata\<close> written with a small a-acute,
  \<^verbatim>\<open>formatLineName\<close> returns a capital a-tilde, \<^verbatim>\<open>U+FFFD\<close> and \<^verbatim>\<open>gata\<close>.
\<close>

theorem formatLineName_no_dash_garbles:
  "CHR ''-'' \<notin> set agata
   \<and> formatLineName latin1 ''linha'' = ''Linha''
   \<and> title_case latin1 (TrimSpace agata) = Agata
   \<and> formatLineName latin1 agata = garbled_Agata
   \<and> garbled_Agata \<noteq> Agata"
proof -
  have "CHR ''-'' \<notin> set agata" by (simp add: agata_def)
  moreover have "formatLineName latin1 ''linha'' = ''Linha''"
    by (simp add: formatLineName_def go_eval)
  moreover have "title_case latin1 agata = Agata"
    by (simp add: title_case_def Agata_def agata_def go_eval)
  moreover have "formatLineName latin1 agata = garbled_Agata"
    by (simp add: formatLineName_def agata_def garbled_Agata_def go_eval)
  moreover have "garbled_Agata \<noteq> Agata"
    by (simp add: garbled_Agata_def Agata_def)
  ultimately show ?thesis by (simp add: TrimSpace_Agata)
qed

section \<open>The column width\<close>

lemma maxLen_loop_eq:
  "maxLen_loop T m lines = foldl max m (map (\<lambda>line. length (formatLineName T (Line line))) lines)"
  by (induction lines arbitrary: m) (simp_all add: Let_def max_def)

lemma table_maxLen_bytes:
  "table_maxLen T lines = foldl max 5 (map (\<lambda>line. length (formatLineName T (Line line))) lines)"
  by (simp add: table_maxLen_def maxLen_loop_eq)

text \<open>
  C6: the column width of the table renderer is not the largest display width in
  characters with a floor of 5: for the one line \<^verbatim>\<open>Linha 5-Lilas\<close>, written with an
  a-acute, the formatted name has 5 characters and the width is 6, the number of its
  bytes (\<open>table_maxLen_bytes\<close>).
\<close>

theorem table_maxLen_counts_bytes:
  "formatLineName latin1 Linha_5_Lilas = Lilas
   \<and> RuneCountInString Lilas = 5
   \<and> spec_column_width latin1 [item Linha_5_Lilas ''ok'' ''verde''] = 5
   \<and> table_maxLen latin1 [item Linha_5_Lilas ''ok'' ''verde''] = 6"
proof -
  have f: "formatLineName latin1 Linha_5_Lilas = Lilas"
    by (simp add: formatLineName_def Linha_5_Lilas_def Lilas_def go_eval)
  have r: "RuneCountInString Lilas = 5" and l: "length Lilas = 6"
    by (simp_all add: RuneCountInString_def Lilas_def go_eval)
  from f r l show ?thesis
    by (simp add: spec_column_width_def table_maxLen_def item_def)
qed


section \<open>The JSON round trip\<close>

subsection \<open>A string is read back coerced to well-formed UTF-8\<close>

lemma prepend_Some_eq [simp]: "prepend x (Some (y, rest)) = Some (x @ y, rest)"
  by (simp add: prepend_def)

lemma byte_dquote [simp]: "byte dquote = 0x22"
  by (simp add: dquote_def)

lemma byte_backslash [simp]: "byte backslash = 0x5C"
  by (simp add: backslash_def)

lemma byte_neq: "byte c \<noteq> byte d \<Longrightarrow> c \<noteq> d"
  by auto

lemma chr_byte [simp]: "chr (byte c) = c"
  by simp

lemma unquote_safe:
  assumes "htmlSafe (byte c)"
  shows "unquote (c # X) = prepend [c] (unquote X)"
proof -
  from assms have "byte c \<noteq> byte dquote" "byte c \<noteq> byte backslash" "\<not> byte c < 0x20" "byte c < 0x80"
    by (simp_all add: htmlSafe_def)
  then have "c \<noteq> dquote" "c \<noteq> backslash" "\<not> byte c < 0x20" "byte c < 0x80"
    by auto
  then show ?thesis by (simp add: unquote.simps(2))
qed

lemma hex_val_digit_all: "list_all (\<lambda>n. hex_val (hex_digit n) = Some n) [0..<16]"
  by code_simp

lemma hex_val_digit: "n < 16 \<Longrightarrow> hex_val (hex_digit n) = Some n"
  using hex_val_digit_all by (simp add: list_all_iff)

lemma getu4_00:
  assumes "b < 256"
  shows "getu4 (CHR ''0'' # CHR ''0'' # hex_digit (b div 16) # hex_digit (b mod 16) # X) = Some b"
proof -
  from assms have "b div 16 < 16" by (simp add: less_mult_imp_div_less)
  then show ?thesis
    by (simp add: hex_val_digit) (simp add: hex_val_def)
qed

lemma backslash_neq_dquote [simp]: "backslash \<noteq> dquote" "dquote \<noteq> backslash"
  by (simp_all add: backslash_def dquote_def)

lemma unquote_simple_escape:
  assumes "simple_escape e = Some ch" "e \<noteq> CHR ''u''"
  shows "unquote (backslash # e # X) = prepend [ch] (unquote X)"
  using assms by (simp add: unquote.simps(2))

lemma unquote_unicode_escape:
  assumes "unicode_escape s = Some (rr, n)"
  shows "unquote (backslash # CHR ''u'' # s) = prepend (EncodeRune rr) (unquote (drop n s))"
  using assms by (simp add: unquote.simps(2))

lemma eq_char_of_iff: "(c = chr n) = (take_bit 8 n = byte c)"
  using char_of_eq_iff [of n c] by auto

lemma char_of_byte: "byte c = n \<Longrightarrow> c = chr n"
  by auto

lemma simple_escapes:
  "simple_escape backslash = Some backslash" "simple_escape dquote = Some dquote"
  "simple_escape CHR ''n'' = Some (chr 10)" "simple_escape CHR ''r'' = Some (chr 13)"
  "simple_escape CHR ''t'' = Some (chr 9)"
  "backslash \<noteq> CHR ''u''" "dquote \<noteq> CHR ''u''"
  by (simp_all add: simple_escape_def backslash_def dquote_def char_of_eq_iff eq_char_of_iff)

lemma unquote_escape:
  assumes "byte c < 0x80" "\<not> htmlSafe (byte c)"
  shows "unquote (escape_byte (byte c) @ X) = prepend [c] (unquote X)"
proof -
  consider "byte c = 0x5C" | "byte c = 0x22" | "byte c = 10" | "byte c = 13" | "byte c = 9"
    | "byte c \<noteq> 0x5C" "byte c \<noteq> 0x22" "byte c \<noteq> 10" "byte c \<noteq> 13" "byte c \<noteq> 9"
    by blast
  then show ?thesis
  proof cases
    case 1
    then have c: "c = backslash" by (metis byte_backslash chr_byte)
    have "escape_byte (byte c) = [backslash, backslash]"
      by (simp add: escape_byte_def c) (simp add: backslash_def char_of_eq_iff)
    then show ?thesis
      using unquote_simple_escape [OF simple_escapes(1) simple_escapes(6), of X] by (simp add: c)
  next
    case 2
    then have c: "c = dquote" by (metis byte_dquote chr_byte)
    have "escape_byte (byte c) = [backslash, dquote]"
      by (simp add: escape_byte_def c) (simp add: dquote_def char_of_eq_iff)
    then show ?thesis
      using unquote_simple_escape [OF simple_escapes(2) simple_escapes(7), of X] by (simp add: c)
  next
    case 3
    then have c: "c = chr 10" by (rule char_of_byte)
    have "escape_byte (byte c) = [backslash, CHR ''n'']"
      by (simp add: escape_byte_def 3)
    then show ?thesis
      using unquote_simple_escape [OF simple_escapes(3), of X] by (simp add: c)
  next
    case 4
    then have c: "c = chr 13" by (rule char_of_byte)
    have "escape_byte (byte c) = [backslash, CHR ''r'']"
      by (simp add: escape_byte_def 4)
    then show ?thesis
      using unquote_simple_escape [OF simple_escapes(4), of X] by (simp add: c)
  next
    case 5
    then have c: "c = chr 9" by (rule char_of_byte)
    have "escape_byte (byte c) = [backslash, CHR ''t'']"
      by (simp add: escape_byte_def 5)
    then show ?thesis
      using unquote_simple_escape [OF simple_escapes(5), of X] by (simp add: c)
  next
    case 6
    let ?s = "CHR ''0'' # CHR ''0'' # hex_digit (byte c div 16) # hex_digit (byte c mod 16) # X"
    from assms(1) have "byte c < 256" by simp
    from getu4_00 [OF this] have g: "getu4 ?s = Some (byte c)" .
    from assms(1) have e: "EncodeRune (byte c) = [c]" by (simp add: EncodeRune_def)
    from assms(1) have ns: "\<not> IsSurrogate (byte c)" by (simp add: IsSurrogate_def)
    from g ns have u: "unicode_escape ?s = Some (byte c, 4)"
      by (simp add: unicode_escape_def)
    from 6 have "escape_byte (byte c) @ X = backslash # CHR ''u'' # ?s"
      by (simp add: escape_byte_def)
    then show ?thesis
      using unquote_unicode_escape [OF u] by (simp add: e)
  qed
qed


lemma unquote_replacement:
  "unquote ([backslash] @ ''ufffd'' @ X) = prepend (EncodeRune RuneError) (unquote X)"
proof -
  have "unicode_escape (''fffd'' @ X) = Some (RuneError, 4)"
    by (simp add: unicode_escape_def hex_val_def RuneError_def IsSurrogate_def)
  from unquote_unicode_escape [OF this] show ?thesis by simp
qed

lemma unquote_separator:
  assumes "c = 0x2028 \<or> c = 0x2029"
  shows "unquote ([backslash] @ ''u202'' @ [hex_digit (c mod 16)] @ X) = prepend (EncodeRune c) (unquote X)"
proof -
  from assms have "unicode_escape (''202'' @ [hex_digit (c mod 16)] @ X) = Some (c, 4)"
    by (auto simp add: unicode_escape_def hex_val_def hex_digit_def IsSurrogate_def)
  from unquote_unicode_escape [OF this] show ?thesis by simp
qed

lemma Decode_multi:
  assumes "DecodeRuneInString (c0 # t) = (r, n)" "n \<noteq> 1"
  shows "n = seq_size (byte c0) \<and> n \<le> length t + 1 \<and> 0xC2 \<le> byte c0 \<and> byte c0 \<le> 0xF4"
proof -
  let ?k = "seq_size (byte c0)"
  have k: "?k = 2 \<or> ?k = 3 \<or> ?k = 4" by (simp add: seq_size_def)
  from assms show ?thesis
    apply (simp add: DecodeRuneInString.simps(2) Let_def split: if_splits)
    using k apply (auto simp: Suc_le_eq)
    done
qed

lemma Decode_two:
  assumes "seq_size (byte c0) = 2"
  shows "DecodeRuneInString (c0 # c1 # t) = DecodeRuneInString (c0 # c1 # t')"
  using assms by (simp add: DecodeRuneInString.simps(2) Let_def)

lemma Decode_three:
  assumes "seq_size (byte c0) = 3"
  shows "DecodeRuneInString (c0 # c1 # c2 # t) = DecodeRuneInString (c0 # c1 # c2 # t')"
  using assms by (simp add: DecodeRuneInString.simps(2) Let_def)

lemma Decode_four:
  "DecodeRuneInString (c0 # c1 # c2 # c3 # t) = DecodeRuneInString (c0 # c1 # c2 # c3 # t')"
  by (simp add: DecodeRuneInString.simps(2) Let_def seq_size_def)

lemma Decode_prefix:
  assumes "DecodeRuneInString (c0 # t) = (r, n)" "n \<noteq> 1"
  shows "DecodeRuneInString (c0 # take (n - 1) t @ X) = (r, n)"
proof -
  from Decode_multi [OF assms] have n: "n = seq_size (byte c0)" and len: "n \<le> length t + 1"
    by simp_all
  have k: "n = 2 \<or> n = 3 \<or> n = 4" by (simp add: n seq_size_def)
  then show ?thesis
  proof (elim disjE)
    assume n2: "n = 2"
    with len obtain c1 t1 where t: "t = c1 # t1" by (cases t) auto
    show ?thesis
      using assms(1) Decode_two [of c0 c1 X t1] n n2 by (simp add: t)
  next
    assume n3: "n = 3"
    with len obtain c1 c2 t2 where t: "t = c1 # c2 # t2"
      by (cases t; cases "tl t") auto
    show ?thesis
      using assms(1) Decode_three [of c0 c1 c2 X t2] n n3 by (simp add: t)
  next
    assume n4: "n = 4"
    with len obtain c1 c2 c3 t3 where t: "t = c1 # c2 # c3 # t3"
      by (cases t; cases "tl t"; cases "tl (tl t)") auto
    show ?thesis
      using assms(1) Decode_four [of c0 c1 c2 c3 X t3] n4 by (simp add: t)
  qed
qed


lemma coerce_Nil [simp]: "coerce_utf8 [] = []"
  by (simp add: coerce_utf8_def)

lemma coerce_step:
  "s \<noteq> [] \<Longrightarrow>
    coerce_utf8 s = EncodeRune (fst (DecodeRuneInString s)) @ coerce_utf8 (drop (snd (DecodeRuneInString s)) s)"
  by (simp add: coerce_utf8_def runes.simps [of s])

lemma Decode_ascii: "byte c < 0x80 \<Longrightarrow> DecodeRuneInString (c # t) = (byte c, 1)"
  by (simp add: DecodeRuneInString.simps(2))

lemma coerce_Cons_ascii: "byte c < 0x80 \<Longrightarrow> coerce_utf8 (c # t) = c # coerce_utf8 t"
  by (simp add: coerce_step Decode_ascii EncodeRune_def)

lemma unquote_nonascii:
  assumes "\<not> byte c < 0x80"
  shows "unquote (c # t) = prepend (EncodeRune (fst (DecodeRuneInString (c # t))))
    (unquote (drop (snd (DecodeRuneInString (c # t))) (c # t)))"
proof -
  from assms have "byte c \<noteq> byte dquote" "byte c \<noteq> byte backslash" "\<not> byte c < 0x20"
    by simp_all
  then have "c \<noteq> dquote" "c \<noteq> backslash" "\<not> byte c < 0x20" by auto
  with assms show ?thesis by (simp add: unquote.simps(2))
qed

lemma unquote_body: "unquote (appendString_body s @ dquote # rest) = Some (coerce_utf8 s, rest)"
proof (induction s rule: appendString_body.induct)
  case (1 s)
  show ?case
  proof (cases s)
    case Nil
    then show ?thesis by (simp add: appendString_body.simps unquote.simps(2))
  next
    case (Cons c t)
    show ?thesis
    proof (cases "byte c < 0x80")
      case True
      with Cons "1.IH"(1) have IH: "unquote (appendString_body t @ dquote # rest) = Some (coerce_utf8 t, rest)"
        by simp
      have body: "appendString_body s =
          (if htmlSafe (byte c) then [c] else escape_byte (byte c)) @ appendString_body t"
        unfolding Cons using True by (subst appendString_body.simps) simp
      have co: "coerce_utf8 s = c # coerce_utf8 t"
        using True by (simp add: Cons coerce_Cons_ascii)
      show ?thesis
      proof (cases "htmlSafe (byte c)")
        case safe: True
        then show ?thesis
          using unquote_safe [OF safe, of "appendString_body t @ dquote # rest"] IH
          by (simp add: body co)
      next
        case unsafe: False
        then show ?thesis
          using unquote_escape [OF True unsafe, of "appendString_body t @ dquote # rest"] IH
          by (simp add: body co)
      qed
    next
      case False
      define r where "r = fst (DecodeRuneInString s)"
      define n where "n = snd (DecodeRuneInString s)"
      have d: "DecodeRuneInString (c # t) = (r, n)" by (simp add: r_def n_def Cons)
      from False Cons "1.IH"(2) [OF _ _ r_def n_def]
      have IH: "unquote (appendString_body (drop n s) @ dquote # rest) = Some (coerce_utf8 (drop n s), rest)"
        by simp
      have co: "coerce_utf8 s = EncodeRune r @ coerce_utf8 (drop n s)"
        using coerce_step [of s] Cons by (simp add: r_def n_def)
      have body: "appendString_body s =
          (if r = RuneError \<and> n = 1 then [backslash] @ ''ufffd''
           else if r = 0x2028 \<or> r = 0x2029 then [backslash] @ ''u202'' @ [hex_digit (r mod 16)]
           else take n s) @ appendString_body (drop n s)"
        unfolding r_def n_def Cons using False by (subst appendString_body.simps) (simp add: Let_def)
      consider "r = RuneError \<and> n = 1" | "\<not> (r = RuneError \<and> n = 1)" "r = 0x2028 \<or> r = 0x2029"
        | "\<not> (r = RuneError \<and> n = 1)" "\<not> (r = 0x2028 \<or> r = 0x2029)"
        by blast
      then show ?thesis
      proof cases
        case 1
        then show ?thesis
          using unquote_replacement [of "appendString_body (drop n s) @ dquote # rest"] IH
          by (simp add: body co)
      next
        case 2
        from 2(2) have "r \<noteq> RuneError" by (auto simp: RuneError_def)
        with 2 show ?thesis
          using unquote_separator [OF 2(2), of "appendString_body (drop n s) @ dquote # rest"] IH
          by (simp add: body co)
      next
        case 3
        have n1: "n \<noteq> 1"
        proof
          assume "n = 1"
          with d False have "r = RuneError"
            by (simp add: DecodeRuneInString.simps(2) Let_def split: if_splits)
          with \<open>n = 1\<close> 3(1) show False by simp
        qed
        from Decode_multi [OF d n1] have len: "n \<le> length t + 1" and n0: "n \<noteq> 0"
          by (auto simp: seq_size_def)
        let ?Y = "appendString_body (drop n s) @ dquote # rest"
        have tk: "take n s = c # take (n - 1) t"
          using n0 by (cases n) (simp_all add: Cons)
        have dr: "drop n (c # take (n - 1) t @ ?Y) = ?Y"
          using len n0 by (cases n) simp_all
        have "unquote (c # take (n - 1) t @ ?Y) = prepend (EncodeRune r) (unquote ?Y)"
          using unquote_nonascii [OF False, of "take (n - 1) t @ ?Y"] Decode_prefix [OF d n1, of ?Y] dr
          by simp
        with 3 IH n1 show ?thesis
          by (simp add: body co tk)
      qed
    qed
  qed
qed

lemma unquote_appendString:
  "unquote (tl (appendString s) @ rest) = Some (coerce_utf8 s, rest)"
  by (simp add: appendString_def unquote_body)

subsection \<open>The document is lexed, parsed and read into the struct\<close>

lemma lex_ws [simp]:
  "lex_json (CHR '' '' # s) = lex_json s" "lex_json (CHR ''\<newline>'' # s) = lex_json s"
  by (simp_all add: lex_json.simps(2) is_ws_def)

lemma lex_punct [simp]:
  "lex_json (CHR ''{'' # s) = map_option (Cons LBrace) (lex_json s)"
  "lex_json (CHR ''}'' # s) = map_option (Cons RBrace) (lex_json s)"
  "lex_json (CHR ''['' # s) = map_option (Cons LBrack) (lex_json s)"
  "lex_json (CHR '']'' # s) = map_option (Cons RBrack) (lex_json s)"
  "lex_json (CHR '':'' # s) = map_option (Cons Colon) (lex_json s)"
  "lex_json (CHR '','' # s) = map_option (Cons Comma) (lex_json s)"
  by (simp_all add: lex_json.simps(2) is_ws_def)

lemma lex_dquote:
  "lex_json (dquote # s) =
    (case unquote s of None \<Rightarrow> None | Some (str, rest) \<Rightarrow> map_option (Cons (TString str)) (lex_json rest))"
  by (simp add: lex_json.simps(2) is_ws_def dquote_def)

lemma lex_appendString:
  "lex_json (appendString x @ s) = map_option (Cons (TString (coerce_utf8 x))) (lex_json s)"
  by (simp add: appendString_def lex_dquote unquote_body)

lemma unquote_plain:
  "list_all (\<lambda>c. htmlSafe (byte c)) k \<Longrightarrow> unquote (k @ dquote # rest) = Some (k, rest)"
proof (induction k)
  case Nil
  then show ?case by (simp add: unquote.simps(2))
next
  case (Cons c k)
  then show ?case by (simp add: unquote_safe)
qed

lemma lex_json_key:
  assumes "list_all (\<lambda>c. htmlSafe (byte c)) k"
  shows "lex_json (json_key k @ s) = map_option (\<lambda>toks. TString k # Colon # toks) (lex_json s)"
  using unquote_plain [OF assms, of "'': '' @ s"]
  by (simp add: json_key_def lex_dquote option.map_comp comp_def)

lemma lex_200:
  "lex_json (CHR ''2'' # CHR ''0'' # CHR ''0'' # CHR '','' # s)
    = map_option (\<lambda>toks. TNumber ''200'' # Comma # toks) (lex_json s)"
  by (simp add: lex_json.simps(2) [of "CHR ''2''"] is_ws_def dquote_def number_char_def is_digit_def
      is_number_def integer_ok_def digits1_def fraction_ok_def exponent_ok_def
      option.map_comp comp_def)


lemma safe_keys:
  "list_all (\<lambda>c. htmlSafe (byte c)) ''line''" "list_all (\<lambda>c. htmlSafe (byte c)) ''status''"
  "list_all (\<lambda>c. htmlSafe (byte c)) ''code''" "list_all (\<lambda>c. htmlSafe (byte c)) ''data''"
  "list_all (\<lambda>c. htmlSafe (byte c)) ''message''"
  by (simp_all add: htmlSafe_def)

lemmas lex_keys =
  lex_json_key [OF safe_keys(1)] lex_json_key [OF safe_keys(2)] lex_json_key [OF safe_keys(3)]
  lex_json_key [OF safe_keys(4)] lex_json_key [OF safe_keys(5)]

lemma lex_OutputLine:
  "lex_json (encode_OutputLine l @ s) = map_option ((@) (line_tokens l)) (lex_json s)"
  by (cases "lex_json s")
    (simp_all add: encode_OutputLine_def lex_keys lex_appendString line_tokens_def)

lemma lex_items:
  "lex_json (Join (map encode_OutputLine ls) '',\<newline>'' @ s) = map_option ((@) (items_tokens ls)) (lex_json s)"
proof (induction ls rule: items_tokens.induct)
  case 1
  show ?case by (simp add: option.map_ident)
next
  case (2 l)
  show ?case by (simp add: lex_OutputLine)
next
  case (3 l m ls)
  then show ?case
    by (cases "lex_json s") (simp_all add: lex_OutputLine)
qed

lemma decimal_200: "decimal_int 200 = ''200''"
  by (simp add: decimal_int_def decimal.simps char_of_eq_iff)

lemma coerce_success: "coerce_utf8 ''success'' = ''success''"
  by (simp add: coerce_Cons_ascii)

lemma lex_document:
  "lex_json (encode_OutputResponse \<lparr> out_Code = 200, out_Data = ls, out_Message = ''success'' \<rparr>)
    = Some (document_tokens ls)"
proof (cases "ls = []")
  case True
  then show ?thesis
    by (simp add: encode_OutputResponse_def decimal_200 lex_200 lex_keys lex_appendString
        coerce_success document_tokens_def)
next
  case False
  have "lex_json (Join (map encode_OutputLine ls) '',\<newline>''
          @ ''\<newline>    ],\<newline>    '' @ json_key ''message'' @ appendString ''success'' @ ''\<newline>}\<newline>'')
        = Some (items_tokens ls @ [RBrack, Comma, TString ''message'', Colon, TString ''success'', RBrace])"
    by (simp add: lex_items lex_keys lex_appendString coerce_success)
  with False show ?thesis
    by (simp add: encode_OutputResponse_def decimal_200 lex_200 lex_keys document_tokens_def)
qed


lemma run_parser_append:
  "run_parser st (a @ b) = (case run_parser st a of None \<Rightarrow> None | Some st' \<Rightarrow> run_parser st' b)"
  by (induction a arbitrary: st) (simp_all split: option.splits)

lemma run_line:
  assumes "m = MValue \<or> m = MValueOrClose"
  shows "run_parser (Run m (InArray es # st)) (line_tokens l)
    = Some (Run MAfter (InArray (line_json l # es) # st))"
  using assms by (auto simp add: line_tokens_def line_json_def)

lemma run_items:
  assumes "m = MValue \<or> m = MValueOrClose" "ls \<noteq> []"
  shows "run_parser (Run m (InArray es # st)) (items_tokens ls)
    = Some (Run MAfter (InArray (rev (map line_json ls) @ es) # st))"
  using assms
proof (induction ls arbitrary: m es rule: items_tokens.induct)
  case 1
  then show ?case by simp
next
  case (2 l)
  then show ?case by (simp add: run_line)
next
  case (3 l k ls)
  have "run_parser (Run MValue (InArray (line_json l # es) # st)) (items_tokens (k # ls))
      = Some (Run MAfter (InArray (rev (map line_json (k # ls)) @ line_json l # es) # st))"
    by (rule "3.IH") simp_all
  with "3.prems"(1) show ?case
    by (simp add: run_parser_append run_line)
qed

lemma run_document:
  "run_parser (Run MValue []) (document_tokens ls) = Some (Finished (document_json ls))"
proof (cases "ls = []")
  case True
  then show ?thesis by (simp add: document_tokens_def document_json_def)
next
  case False
  let ?st = "[InObject [(''code'', JNumber ''200'')] (Some ''data'')]"
  have "run_parser (Run MValueOrClose (InArray [] # ?st)) (items_tokens ls)
      = Some (Run MAfter (InArray (rev (map line_json ls) @ []) # ?st))"
    using False by (intro run_items) simp_all
  then show ?thesis
    by (simp add: document_tokens_def document_json_def run_parser_append)
qed

lemma parse_document:
  "parse_json (encode_OutputResponse \<lparr> out_Code = 200, out_Data = ls, out_Message = ''success'' \<rparr>)
    = Some (document_json ls)"
  by (simp add: parse_json_def lex_document run_document)

lemma field_tags:
  "field_matches T ''line'' ''line''" "\<not> field_matches T ''line'' ''status''"
  "field_matches T ''status'' ''status''"
  "field_matches T ''code'' ''code''" "\<not> field_matches T ''code'' ''data''"
  "\<not> field_matches T ''code'' ''message''" "field_matches T ''data'' ''data''"
  "\<not> field_matches T ''data'' ''message''" "field_matches T ''message'' ''message''"
  by (simp_all add: field_matches_def)

lemma decode_line_json: "decode_OutputLine T (line_json l) = Some (coerce_line l)"
  by (simp add: line_json_def coerce_line_def field_tags)

lemma all_some_lines:
  "all_some (map (decode_OutputLine T) (map line_json ls)) = Some (map coerce_line ls)"
  by (induction ls) (simp_all add: decode_line_json del: map_map)

lemma int_of_200: "int_of_literal ''200'' = Some 200"
  by (simp add: int_of_literal_def integer_ok_def digits1_def is_digit_def digits_value_def)

lemma decode_document:
  "decode_OutputResponse T (document_json ls)
    = Some \<lparr> out_Code = 200, out_Data = map coerce_line ls, out_Message = ''success'' \<rparr>"
  by (simp add: document_json_def int_of_200 all_some_lines field_tags del: map_map)

lemma Unmarshal_document:
  "Unmarshal T (encode_OutputResponse \<lparr> out_Code = 200, out_Data = ls, out_Message = ''success'' \<rparr>)
    = Some \<lparr> out_Code = 200, out_Data = map coerce_line ls, out_Message = ''success'' \<rparr>"
  by (simp add: Unmarshal_def parse_document decode_document)

subsection \<open>The renderer's document\<close>

lemma printJSON_loop_eq:
  "i + length lines \<le> length outs \<Longrightarrow>
    printJSON_loop T outs i lines
      = take i outs
        @ map (\<lambda>line. \<lparr> out_Line = formatLineName T (Line line),
                          out_Status = normalizeStatus T (Status line) \<rparr>) lines
        @ drop (i + length lines) outs"
proof (induction lines arbitrary: outs i)
  case Nil
  then show ?case by simp
next
  case (Cons l ls)
  let ?v = "\<lparr> out_Line = formatLineName T (Line l), out_Status = normalizeStatus T (Status l) \<rparr>"
  from Cons.prems have i: "i < length outs" and le: "Suc i + length ls \<le> length (outs[i := ?v])"
    by simp_all
  have "take (Suc i) (outs[i := ?v]) = take i outs @ [?v]"
    using i by (simp add: take_Suc_conv_app_nth)
  moreover have "drop (Suc i + length ls) (outs[i := ?v]) = drop (Suc i + length ls) outs"
    by simp
  ultimately show ?case
    using Cons.IH [OF le] by simp
qed

lemma printJSON_output_eq:
  "printJSON_output T lines =
    \<lparr> out_Code = 200,
      out_Data = map (\<lambda>line. \<lparr> out_Line = formatLineName T (Line line),
                                 out_Status = normalizeStatus T (Status line) \<rparr>) lines,
      out_Message = ''success'' \<rparr>"
  by (simp add: printJSON_output_def printJSON_loop_eq)

lemma Encode_upper_ascii:
  assumes "byte c < 0x80"
  shows "EncodeRune (unicode_ToUpper T (byte c)) = [upperByte c]"
proof (cases "0x61 \<le> byte c \<and> byte c \<le> 0x7A")
  case True
  then have "byte c - 32 \<le> 0x7F" by linarith
  with True assms show ?thesis
    by (simp add: EncodeRune_def unicode_ToUpper_def upperByte_def)
next
  case False
  with assms show ?thesis
    by (auto simp add: EncodeRune_def unicode_ToUpper_def upperByte_def)
qed

lemma Map_upper_ascii: "isASCII s \<Longrightarrow> strings_Map (unicode_ToUpper T) s = map upperByte s"
proof (induction s)
  case Nil
  then show ?case by (simp add: strings_Map_def)
next
  case (Cons c s)
  then have "strings_Map (unicode_ToUpper T) s = map upperByte s" by simp
  with Cons.prems show ?case
    by (simp add: strings_Map_def runes_Cons_ascii Encode_upper_ascii)
qed

lemma ToUpper_Map: "ToUpper T s = strings_Map (unicode_ToUpper T) s"
  by (simp add: ToUpper_def Map_upper_ascii)

lemma EncodeRune_invalid: "\<not> valid_rune r \<Longrightarrow> EncodeRune r = EncodeRune RuneError"
  by (auto simp add: valid_rune_def EncodeRune_def MaxRune_def RuneError_def)

lemma coerce_Encode_append: "coerce_utf8 (EncodeRune r @ s) = EncodeRune r @ coerce_utf8 s"
proof (cases "valid_rune r")
  case True
  then show ?thesis by (simp add: coerce_utf8_def runes_Encode_append)
next
  case False
  then have "EncodeRune r = EncodeRune RuneError" by (rule EncodeRune_invalid)
  then show ?thesis by (simp add: coerce_utf8_def runes_Encode_append)
qed

lemma coerce_concat_Encode:
  "coerce_utf8 (concat (map EncodeRune rs) @ s) = concat (map EncodeRune rs) @ coerce_utf8 s"
  by (induction rs) (simp_all add: coerce_Encode_append)

lemma coerce_Map_append:
  "coerce_utf8 (strings_Map f x @ s) = strings_Map f x @ coerce_utf8 s"
  using coerce_concat_Encode [of "map f (runes x)" s] by (simp add: strings_Map_def comp_def)

lemma coerce_formatLineName: "coerce_utf8 (formatLineName T line) = formatLineName T line"
proof -
  have "coerce_utf8 (ToUpper T a @ ToLower T b) = ToUpper T a @ ToLower T b" for a b
    using coerce_Map_append [of "unicode_ToUpper T" a "strings_Map (unicode_ToLower T) b"]
      coerce_Map_append [of "unicode_ToLower T" b "[]"]
    by (simp add: ToUpper_Map ToLower_Map)
  then show ?thesis by (simp add: formatLineName_def Let_def)
qed

subsection \<open>Trimming keeps a string well formed\<close>

text \<open>
  \<^verbatim>\<open>DecodeLastRuneInString\<close> reads back the last rune that \<^verbatim>\<open>EncodeRune\<close> wrote, so the
  trimming functions cut a string of encoded runes between two of them.
\<close>

lemma RuneStart_iff: "RuneStart b = (b < 128 \<or> 192 \<le> b)"
proof -
  have "(b div 64 = 2) = (2 \<le> b div 64 \<and> b div 64 < 3)" by auto
  also have "\<dots> = (128 \<le> b \<and> b < 192)"
    by (simp add: less_eq_div_iff_mult_less_eq div_less_iff_less_mult)
  finally show ?thesis by (auto simp: RuneStart_def)
qed

lemma scan_back_start:
  "lim \<le> i \<Longrightarrow> RuneStart (byte (s ! nat i)) \<Longrightarrow> scan_back s lim i = i"
  by (subst scan_back.simps) simp

lemma scan_back_cont:
  "lim \<le> i \<Longrightarrow> \<not> RuneStart (byte (s ! nat i)) \<Longrightarrow> scan_back s lim i = scan_back s lim (i - 1)"
  by (subst scan_back.simps) simp

lemma DecodeLast_one:
  assumes "byte e < 0x80"
  shows "DecodeLastRuneInString (P @ [e]) = (byte e, 1)"
  using assms by (simp add: DecodeLastRuneInString_def)

lemma DecodeLast_two:
  assumes "RuneStart (byte e0)" "0x80 \<le> byte e1" "snd (DecodeRuneInString [e0, e1]) = 2"
  shows "DecodeLastRuneInString (P @ [e0, e1]) = DecodeRuneInString [e0, e1]"
proof -
  let ?s = "P @ [e0, e1]"
  let ?n = "length ?s"
  have n: "int ?n - 2 = int (length P)" by simp
  have s0: "?s ! length P = e0" by (simp add: nth_append)
  have sc: "scan_back ?s (max 0 (int ?n - 4)) (int ?n - 2) = int (length P)"
    unfolding n using assms(1) by (intro scan_back_start) (simp_all add: s0)
  have l: "?s ! (?n - 1) = e1" by (simp add: nth_append)
  show ?thesis
    unfolding DecodeLastRuneInString_def Let_def sc l using assms(2,3) by simp
qed

lemma DecodeLast_three:
  assumes "RuneStart (byte e0)" "\<not> RuneStart (byte e1)" "0x80 \<le> byte e2"
    "snd (DecodeRuneInString [e0, e1, e2]) = 3"
  shows "DecodeLastRuneInString (P @ [e0, e1, e2]) = DecodeRuneInString [e0, e1, e2]"
proof -
  let ?s = "P @ [e0, e1, e2]"
  let ?n = "length ?s"
  let ?lim = "max 0 (int ?n - 4)"
  have n: "int ?n - 2 = int (length P) + 1" by simp
  have s0: "?s ! length P = e0" by (simp add: nth_append)
  have s1: "?s ! Suc (length P) = e1" by (simp add: nth_append)
  have "scan_back ?s ?lim (int (length P) + 1) = scan_back ?s ?lim (int (length P) + 1 - 1)"
    using assms(2) by (intro scan_back_cont) (simp_all add: s1 nat_add_distrib)
  also have "\<dots> = int (length P)"
    using assms(1) by (simp add: scan_back_start s0)
  finally have sc: "scan_back ?s ?lim (int ?n - 2) = int (length P)" unfolding n .
  have l: "?s ! (?n - 1) = e2" by (simp add: nth_append)
  show ?thesis
    unfolding DecodeLastRuneInString_def Let_def sc l using assms(3,4) by simp
qed

lemma DecodeLast_four:
  assumes "RuneStart (byte e0)" "\<not> RuneStart (byte e1)" "\<not> RuneStart (byte e2)" "0x80 \<le> byte e3"
    "snd (DecodeRuneInString [e0, e1, e2, e3]) = 4"
  shows "DecodeLastRuneInString (P @ [e0, e1, e2, e3]) = DecodeRuneInString [e0, e1, e2, e3]"
proof -
  let ?s = "P @ [e0, e1, e2, e3]"
  let ?n = "length ?s"
  let ?lim = "max 0 (int ?n - 4)"
  have n: "int ?n - 2 = int (length P) + 2" by simp
  have lim: "?lim = int (length P)" by simp
  have s0: "?s ! length P = e0" by (simp add: nth_append)
  have s1: "?s ! Suc (length P) = e1" by (simp add: nth_append)
  have s2: "?s ! Suc (Suc (length P)) = e2" by (simp add: nth_append)
  have "scan_back ?s ?lim (int (length P) + 2) = scan_back ?s ?lim (int (length P) + 2 - 1)"
    using assms(3) by (intro scan_back_cont) (simp_all add: s2 nat_add_distrib)
  also have "\<dots> = scan_back ?s ?lim (int (length P) + 1)" by (simp add: add.commute)
  also have "\<dots> = scan_back ?s ?lim (int (length P) + 1 - 1)"
    using assms(2) by (intro scan_back_cont) (simp_all add: s1 nat_add_distrib)
  also have "\<dots> = int (length P)"
    using assms(1) by (simp add: scan_back_start s0)
  finally have sc: "scan_back ?s ?lim (int ?n - 2) = int (length P)" unfolding n .
  have l: "?s ! (?n - 1) = e3" by (simp add: nth_append)
  show ?thesis
    unfolding DecodeLastRuneInString_def Let_def sc l using assms(4,5) by simp
qed

lemma byte_chr: "n < 256 \<Longrightarrow> byte (chr n) = n"
  by simp

lemma Encode_shape:
  assumes "valid_rune r"
  shows "(r \<le> 0x7F \<and> EncodeRune r = [chr r])
    \<or> (\<exists>a b. 2 \<le> a \<and> a < 32 \<and> b < 64 \<and> EncodeRune r = [chr (192 + a), chr (128 + b)])
    \<or> (\<exists>a b c. a < 16 \<and> b < 64 \<and> c < 64
          \<and> EncodeRune r = [chr (224 + a), chr (128 + b), chr (128 + c)])
    \<or> (\<exists>a b c d. a < 5 \<and> b < 64 \<and> c < 64 \<and> d < 64
          \<and> EncodeRune r = [chr (240 + a), chr (128 + b), chr (128 + c), chr (128 + d)])"
proof -
  consider "r \<le> 0x7F" | "0x7F < r" "r \<le> 0x7FF" | "0x7FF < r" "r \<le> 0xFFFF" | "0xFFFF < r"
    by linarith
  then show ?thesis
  proof cases
    case 1
    then show ?thesis by (simp add: EncodeRune_def)
  next
    case 2
    have "2 \<le> r div 64" using 2(1) div_le_mono [of 128 r 64] by simp
    moreover have "r div 64 < 32" using 2(2) by (simp add: less_mult_imp_div_less)
    moreover have "r mod 64 < 64" by simp
    moreover from 2 have "EncodeRune r = [chr (192 + r div 64), chr (128 + r mod 64)]"
      by (simp add: EncodeRune_def)
    ultimately show ?thesis by blast
  next
    case 3
    from assms have ns: "(55296 \<le> r \<and> r \<le> 57343) = False" by (simp add: valid_rune_def)
    have "r div 4096 < 16" using 3(2) by (simp add: less_mult_imp_div_less)
    moreover have "r div 64 mod 64 < 64" "r mod 64 < 64" by simp_all
    moreover from 3 have "EncodeRune r =
        [chr (224 + r div 4096), chr (128 + r div 64 mod 64), chr (128 + r mod 64)]"
      by (simp add: EncodeRune_def MaxRune_def ns)
    ultimately show ?thesis by blast
  next
    case 4
    from assms have m: "r \<le> 1114111" by (simp add: valid_rune_def MaxRune_def)
    then have "r div 262144 < 5" by (simp add: less_mult_imp_div_less)
    moreover have "r div 4096 mod 64 < 64" "r div 64 mod 64 < 64" "r mod 64 < 64" by simp_all
    moreover from 4 m have "EncodeRune r =
        [chr (240 + r div 262144), chr (128 + r div 4096 mod 64),
         chr (128 + r div 64 mod 64), chr (128 + r mod 64)]"
      by (simp add: EncodeRune_def MaxRune_def)
    ultimately show ?thesis by blast
  qed
qed

lemma DecodeLast_Encode:
  assumes "valid_rune r"
  shows "DecodeLastRuneInString (P @ EncodeRune r) = (r, length (EncodeRune r))"
proof -
  have d: "DecodeRuneInString (EncodeRune r) = (r, length (EncodeRune r))"
    using DecodeRune_Encode [OF assms, of "[]"] by simp
  from Encode_shape [OF assms] show ?thesis
  proof (elim disjE exE conjE)
    assume "r \<le> 0x7F" and e: "EncodeRune r = [chr r]"
    then show ?thesis using DecodeLast_one [of "chr r" P] by simp
  next
    fix a b :: nat
    assume b: "2 \<le> a" "a < 32" "b < 64" and e: "EncodeRune r = [chr (192 + a), chr (128 + b)]"
    from b have "RuneStart (byte (chr (192 + a)))" "0x80 \<le> byte (chr (128 + b))"
      by (simp_all add: RuneStart_iff)
    moreover from d have "snd (DecodeRuneInString [chr (192 + a), chr (128 + b)]) = 2"
      by (simp add: e)
    ultimately show ?thesis using DecodeLast_two [of "chr (192 + a)" "chr (128 + b)" P] d
      by (simp add: e)
  next
    fix a b c :: nat
    assume b: "a < 16" "b < 64" "c < 64"
      and e: "EncodeRune r = [chr (224 + a), chr (128 + b), chr (128 + c)]"
    from b have "RuneStart (byte (chr (224 + a)))" "\<not> RuneStart (byte (chr (128 + b)))"
      "0x80 \<le> byte (chr (128 + c))"
      by (simp_all add: RuneStart_iff)
    moreover from d have "snd (DecodeRuneInString [chr (224 + a), chr (128 + b), chr (128 + c)]) = 3"
      by (simp add: e)
    ultimately show ?thesis
      using DecodeLast_three [of "chr (224 + a)" "chr (128 + b)" "chr (128 + c)" P] d
      by (simp add: e)
  next
    fix a b c d' :: nat
    assume b: "a < 5" "b < 64" "c < 64" "d' < 64"
      and e: "EncodeRune r = [chr (240 + a), chr (128 + b), chr (128 + c), chr (128 + d')]"
    from b have "RuneStart (byte (chr (240 + a)))" "\<not> RuneStart (byte (chr (128 + b)))"
      "\<not> RuneStart (byte (chr (128 + c)))" "0x80 \<le> byte (chr (128 + d'))"
      by (simp_all add: RuneStart_iff)
    moreover from d have
      "snd (DecodeRuneInString [chr (240 + a), chr (128 + b), chr (128 + c), chr (128 + d')]) = 4"
      by (simp add: e)
    ultimately show ?thesis
      using DecodeLast_four [of "chr (240 + a)" "chr (128 + b)" "chr (128 + c)" "chr (128 + d')" P] d
      by (simp add: e)
  qed
qed

lemma TrimLeftFunc_Encode:
  assumes "list_all valid_rune rs"
  shows "TrimLeftFunc f (concat (map EncodeRune rs)) = concat (map EncodeRune (dropWhile f rs))"
  using assms
proof (induction rs)
  case Nil
  then show ?case by (simp add: TrimLeftFunc.simps)
next
  case (Cons r rs)
  let ?X = "concat (map EncodeRune rs)"
  from Cons.prems have v: "valid_rune r" and vs: "list_all valid_rune rs" by simp_all
  have d: "DecodeRuneInString (EncodeRune r @ ?X) = (r, length (EncodeRune r))"
    by (rule DecodeRune_Encode [OF v])
  have ne: "EncodeRune r @ ?X \<noteq> []" by (simp add: EncodeRune_nonempty)
  show ?case
    using Cons.IH [OF vs] d
    by (subst TrimLeftFunc.simps) (simp add: EncodeRune_nonempty)
qed

lemma lastIndexFunc_Encode_skip:
  assumes "list_all valid_rune fs" "list_all f fs"
  shows "lastIndexFunc f (P @ concat (map EncodeRune fs)) = lastIndexFunc f P"
  using assms
proof (induction fs rule: rev_induct)
  case Nil
  then show ?case by simp
next
  case (snoc r fs)
  let ?Q = "P @ concat (map EncodeRune fs)"
  from snoc.prems have v: "valid_rune r" and fr: "f r"
    and vs: "list_all valid_rune fs" and ffs: "list_all f fs" by simp_all
  have d: "DecodeLastRuneInString (?Q @ EncodeRune r) = (r, length (EncodeRune r))"
    by (rule DecodeLast_Encode [OF v])
  have ne: "?Q @ EncodeRune r \<noteq> []" by (simp add: EncodeRune_nonempty)
  have "lastIndexFunc f (?Q @ EncodeRune r) = lastIndexFunc f ?Q"
    using d fr by (subst lastIndexFunc.simps) (simp add: EncodeRune_nonempty)
  with snoc.IH [OF vs ffs] show ?case by simp
qed

lemma lastIndexFunc_Encode_stop:
  assumes "valid_rune r" "\<not> f r"
  shows "lastIndexFunc f (P @ EncodeRune r) = int (length P)"
proof -
  have d: "DecodeLastRuneInString (P @ EncodeRune r) = (r, length (EncodeRune r))"
    by (rule DecodeLast_Encode [OF assms(1)])
  have ne: "P @ EncodeRune r \<noteq> []" by (simp add: EncodeRune_nonempty)
  show ?thesis
    using d assms(2) by (subst lastIndexFunc.simps) (simp add: EncodeRune_nonempty)
qed

lemma lastIndexFunc_Nil [simp]: "lastIndexFunc f [] = - 1"
  by (simp add: lastIndexFunc.simps)

lemma Encode_hd_ascii:
  assumes "valid_rune r" "byte (hd (EncodeRune r)) < 0x80"
  shows "length (EncodeRune r) = 1"
  using Encode_shape [OF assms(1)] assms(2) by auto

lemma TrimRightFunc_Encode_all:
  assumes "list_all valid_rune fs" "list_all f fs"
  shows "TrimRightFunc f (concat (map EncodeRune fs)) = []"
  using lastIndexFunc_Encode_skip [OF assms, of "[]"] by (simp add: TrimRightFunc_def)

lemma TrimRightFunc_Encode_last:
  assumes "valid_rune r" "\<not> f r" "list_all valid_rune fs" "list_all f fs"
  shows "TrimRightFunc f (P @ EncodeRune r @ concat (map EncodeRune fs)) = P @ EncodeRune r"
proof -
  let ?F = "concat (map EncodeRune fs)"
  let ?s = "P @ EncodeRune r @ ?F"
  have i: "lastIndexFunc f ?s = int (length P)"
    using lastIndexFunc_Encode_skip [OF assms(3,4), of "P @ EncodeRune r"]
      lastIndexFunc_Encode_stop [of r f P] assms(1,2) by simp
  have h: "?s ! length P = hd (EncodeRune r)"
    using EncodeRune_nonempty [of r] by (cases "EncodeRune r") (simp_all add: nth_append)
  have dr: "drop (length P) ?s = EncodeRune r @ ?F" by simp
  have d: "DecodeRuneInString (EncodeRune r @ ?F) = (r, length (EncodeRune r))"
    by (rule DecodeRune_Encode [OF assms(1)])
  show ?thesis
  proof (cases "0x80 \<le> byte (hd (EncodeRune r))")
    case True
    then show ?thesis
      unfolding TrimRightFunc_def Let_def i by (simp add: h dr d del: drop_append)
  next
    case False
    then have "length (EncodeRune r) = 1" using Encode_hd_ascii [OF assms(1)] by simp
    then obtain e where e: "EncodeRune r = [e]" by (cases "EncodeRune r") auto
    from False show ?thesis
      unfolding TrimRightFunc_def Let_def i by (simp add: h e nat_add_distrib)
  qed
qed

lemma coerce_Encode_list [simp]:
  "coerce_utf8 (concat (map EncodeRune rs)) = concat (map EncodeRune rs)"
  using coerce_concat_Encode [of rs "[]"] by simp

lemma coerce_as_Encode: "coerce_utf8 s = s \<Longrightarrow> s = concat (map EncodeRune (runes s))"
  by (simp add: coerce_utf8_def)

lemma coerce_TrimLeftFunc:
  assumes "coerce_utf8 s = s"
  shows "coerce_utf8 (TrimLeftFunc f s) = TrimLeftFunc f s"
proof -
  from assms have s: "s = concat (map EncodeRune (runes s))" by (rule coerce_as_Encode)
  have "TrimLeftFunc f (concat (map EncodeRune (runes s))) = concat (map EncodeRune (dropWhile f (runes s)))"
    by (rule TrimLeftFunc_Encode [OF runes_valid])
  with s have "TrimLeftFunc f s = concat (map EncodeRune (dropWhile f (runes s)))" by simp
  then show ?thesis by simp
qed

lemma coerce_TrimRightFunc:
  assumes "coerce_utf8 s = s"
  shows "coerce_utf8 (TrimRightFunc f s) = TrimRightFunc f s"
proof -
  let ?rs = "runes s"
  from assms have s: "s = concat (map EncodeRune ?rs)" by (rule coerce_as_Encode)
  have v: "list_all valid_rune ?rs" by (rule runes_valid)
  show ?thesis
  proof (cases "list_all f ?rs")
    case True
    from TrimRightFunc_Encode_all [OF v True] s have "TrimRightFunc f s = []" by simp
    then show ?thesis by simp
  next
    case False
    then have "\<exists>x \<in> set ?rs. \<not> f x" by (simp add: list_all_iff)
    from split_list_last_prop [OF this]
    obtain ks r fs where rs: "?rs = ks @ r # fs" and nf: "\<not> f r" and ffs: "\<forall>z \<in> set fs. \<not> \<not> f z"
      by blast
    from v rs have vr: "valid_rune r" and vfs: "list_all valid_rune fs" by simp_all
    from ffs have ff: "list_all f fs" by (simp add: list_all_iff)
    have "s = concat (map EncodeRune ks) @ EncodeRune r @ concat (map EncodeRune fs)"
      using s by (simp add: rs)
    then have "TrimRightFunc f s = concat (map EncodeRune ks) @ EncodeRune r"
      using TrimRightFunc_Encode_last [OF vr nf vfs ff, of "concat (map EncodeRune ks)"] by simp
    also have "\<dots> = concat (map EncodeRune (ks @ [r]))" by simp
    finally show ?thesis by (simp only: coerce_Encode_list)
  qed
qed

lemma coerce_butlast_ascii:
  assumes "coerce_utf8 s = s" "s \<noteq> []" "byte (last s) < 0x80"
  shows "coerce_utf8 (butlast s) = butlast s"
proof -
  let ?rs = "runes s"
  from assms(1) have s: "s = concat (map EncodeRune ?rs)" by (rule coerce_as_Encode)
  have v: "list_all valid_rune ?rs" by (rule runes_valid)
  from s assms(2) have "?rs \<noteq> []" by auto
  then obtain ks r where rs: "?rs = ks @ [r]" by (cases ?rs rule: rev_cases) auto
  from v rs have vr: "valid_rune r" by simp
  have s': "s = concat (map EncodeRune ks) @ EncodeRune r" using s by (simp add: rs)
  have l: "last s = last (EncodeRune r)"
    by (subst s') (simp add: EncodeRune_nonempty)
  from Encode_shape [OF vr] assms(3) have "length (EncodeRune r) = 1"
    unfolding l by auto
  then obtain e where e: "EncodeRune r = [e]" by (cases "EncodeRune r") auto
  have "butlast s = concat (map EncodeRune ks)" by (subst s') (simp add: e)
  then show ?thesis by simp
qed

lemma coerce_trim_stop:
  "coerce_utf8 s = s \<Longrightarrow> coerce_utf8 (trim_stop s) = trim_stop s"
proof (induction s rule: trim_stop.induct)
  case (1 s)
  show ?case
  proof (cases "s = []")
    case True
    then show ?thesis by (simp add: trim_stop.simps)
  next
    case ne: False
    show ?thesis
    proof (cases "0x80 \<le> byte (last s)")
      case True
      with ne show ?thesis
        using coerce_TrimRightFunc [OF "1.prems", of unicode_IsSpace]
        by (subst (1 2) trim_stop.simps) simp
    next
      case False
      show ?thesis
      proof (cases "asciiSpace (byte (last s))")
        case True
        from False have "coerce_utf8 (butlast s) = butlast s"
          using coerce_butlast_ascii [OF "1.prems" ne] by simp
        from "1.IH" [OF ne False True this] ne False True show ?thesis
          by (subst (1 2) trim_stop.simps) simp
      next
        case nsp: False
        with ne False "1.prems" show ?thesis
          by (subst (1 2) trim_stop.simps) simp
      qed
    qed
  qed
qed

lemma coerce_tl_ascii:
  assumes "coerce_utf8 (c # s) = c # s" "byte c < 0x80"
  shows "coerce_utf8 s = s"
  using assms by (simp add: coerce_Cons_ascii)

lemma coerce_TrimSpace:
  "coerce_utf8 s = s \<Longrightarrow> coerce_utf8 (TrimSpace s) = TrimSpace s"
proof (induction s)
  case Nil
  then show ?case by simp
next
  case (Cons c s)
  show ?case
  proof (cases "0x80 \<le> byte c")
    case True
    then show ?thesis
      using coerce_TrimRightFunc [OF coerce_TrimLeftFunc [OF Cons.prems, of unicode_IsSpace], of unicode_IsSpace]
      by (simp add: TrimFunc_def)
  next
    case False
    then have a: "byte c < 0x80" by simp
    show ?thesis
    proof (cases "asciiSpace (byte c)")
      case True
      with False Cons.IH [OF coerce_tl_ascii [OF Cons.prems a]] show ?thesis by simp
    next
      case nsp: False
      with False coerce_trim_stop [OF Cons.prems] show ?thesis by simp
    qed
  qed
qed

lemma coerce_Operacao:
  "coerce_utf8 Operacao_Encerrada = Operacao_Encerrada"
  "coerce_utf8 Operacao_Normal = Operacao_Normal"
  by (simp_all add: Operacao_Encerrada_def Operacao_Normal_def coerce_Cons_ascii coerce_step
      DecodeRuneInString.simps(2) Let_def seq_size_def accept_lo_def accept_hi_def EncodeRune_def
      char_of_eq_iff)

lemma coerce_normalizeStatus:
  "coerce_utf8 s = s \<Longrightarrow> coerce_utf8 (normalizeStatus T s) = normalizeStatus T s"
  by (simp add: normalizeStatus_def Let_def coerce_Operacao coerce_TrimSpace)

subsection \<open>Well-formed strings\<close>

text \<open>
  \<^verbatim>\<open>EncodeRune\<close> writes back the bytes that \<^verbatim>\<open>DecodeRuneInString\<close> read as a rune, so a
  string is well formed exactly when the coercion leaves it as it is.
\<close>

lemma Encode2:
  fixes a b :: nat
  assumes "2 \<le> a" "a < 32" "b < 64"
  shows "EncodeRune (a * 64 + b) = [chr (192 + a), chr (128 + b)]"
proof -
  have lo: "\<not> a * 64 + b \<le> 127" using assms by simp
  have hi: "a * 64 + b \<le> 2047" using assms by simp
  have d: "(a * 64 + b) div 64 = a" using assms by simp
  have m: "(a * 64 + b) mod 64 = b" using assms by simp
  have "EncodeRune (a * 64 + b) = [chr (192 + (a * 64 + b) div 64), chr (128 + (a * 64 + b) mod 64)]"
    unfolding EncodeRune_def using lo hi by (simp only: if_False if_True simp_thms)
  then show ?thesis by (simp only: d m)
qed

lemma split3:
  fixes a b c :: nat
  assumes "b < 64" "c < 64"
  shows "(a * 4096 + b * 64 + c) div 4096 = a" "(a * 4096 + b * 64 + c) div 64 mod 64 = b"
    "(a * 4096 + b * 64 + c) mod 64 = c"
proof -
  let ?r = "a * 4096 + b * 64 + c"
  have e: "?r = (a * 64 + b) * 64 + c" by simp
  have bc: "b * 64 + c < 4096" using assms by simp
  then show "?r div 4096 = a" by simp
  have "?r div 64 = a * 64 + b" unfolding e using assms(2) by simp
  then show "?r div 64 mod 64 = b" using assms(1) by simp
  show "?r mod 64 = c" using mod_mult_self3 [of "a * 64 + b" 64 c] assms(2) by (simp add: mult.commute)
qed

lemma Encode3:
  fixes a b c :: nat
  assumes "a < 16" "b < 64" "c < 64" "a = 0 \<longrightarrow> 32 \<le> b" "a = 13 \<longrightarrow> b < 32"
  shows "EncodeRune (a * 4096 + b * 64 + c) = [chr (224 + a), chr (128 + b), chr (128 + c)]"
proof -
  let ?r = "a * 4096 + b * 64 + c"
  have v: "valid_rune ?r" using assms by (intro valid3_aux) simp_all
  then have ns: "(55296 \<le> ?r \<and> ?r \<le> 57343) = False" and mx: "?r \<le> 1114111"
    by (simp_all add: valid_rune_def MaxRune_def)
  have lo: "2048 \<le> ?r"
  proof (cases "a = 0")
    case True
    with assms(4) show ?thesis by simp
  next
    case False
    then show ?thesis by simp
  qed
  have hi: "?r \<le> 65535" using assms by simp
  from lo have c1: "(?r \<le> 127) = False" "(?r \<le> 2047) = False" by simp_all
  from mx have c2: "(1114111 < ?r) = False" by simp
  from hi have c3: "(?r \<le> 65535) = True" by simp
  have "EncodeRune ?r = [chr (224 + ?r div 4096), chr (128 + ?r div 64 mod 64), chr (128 + ?r mod 64)]"
    unfolding EncodeRune_def MaxRune_def by (simp only: c1 c2 c3 ns if_False if_True simp_thms)
  then show ?thesis by (simp only: split3 [OF assms(2,3)])
qed

lemma split4:
  fixes a b c d :: nat
  assumes "b < 64" "c < 64" "d < 64"
  shows "(a * 262144 + b * 4096 + c * 64 + d) div 262144 = a"
    "(a * 262144 + b * 4096 + c * 64 + d) div 4096 mod 64 = b"
    "(a * 262144 + b * 4096 + c * 64 + d) div 64 mod 64 = c"
    "(a * 262144 + b * 4096 + c * 64 + d) mod 64 = d"
proof -
  let ?r = "a * 262144 + b * 4096 + c * 64 + d"
  have e1: "?r = ((a * 64 + b) * 64 + c) * 64 + d" by simp
  have e2: "?r = (a * 64 + b) * 4096 + (c * 64 + d)" by simp
  have cd: "c * 64 + d < 4096" using assms by simp
  have bcd: "b * 4096 + c * 64 + d < 262144" using assms by simp
  then show "?r div 262144 = a" by simp
  have "?r div 4096 = a * 64 + b" unfolding e2 using cd by simp
  then show "?r div 4096 mod 64 = b" using assms(1) by simp
  have "?r div 64 = a * 4096 + b * 64 + c" unfolding e1 using assms(3) by simp
  then show "?r div 64 mod 64 = c" using split3(3) [OF assms(1,2), of a] by simp
  show "?r mod 64 = d" using mod_mult_self3 [of "(a * 64 + b) * 64 + c" 64 d] assms(3) by (simp add: mult.commute)
qed

lemma Encode4:
  fixes a b c d :: nat
  assumes "a < 5" "b < 64" "c < 64" "d < 64" "a = 0 \<longrightarrow> 16 \<le> b" "a = 4 \<longrightarrow> b < 16"
  shows "EncodeRune (a * 262144 + b * 4096 + c * 64 + d)
    = [chr (240 + a), chr (128 + b), chr (128 + c), chr (128 + d)]"
proof -
  let ?r = "a * 262144 + b * 4096 + c * 64 + d"
  have v: "valid_rune ?r" using assms by (intro valid4_aux) simp_all
  then have mx: "?r \<le> 1114111"
    by (simp_all add: valid_rune_def MaxRune_def)
  have lo: "65536 \<le> ?r"
  proof (cases "a = 0")
    case True
    with assms(5) show ?thesis by simp
  next
    case False
    then show ?thesis by simp
  qed
  from lo have c1: "(?r \<le> 127) = False" "(?r \<le> 2047) = False" "(?r \<le> 65535) = False"
    "(55296 \<le> ?r \<and> ?r \<le> 57343) = False" by simp_all
  from mx have c2: "(1114111 < ?r) = False" by simp
  have "EncodeRune ?r = [chr (240 + ?r div 262144), chr (128 + ?r div 4096 mod 64),
      chr (128 + ?r div 64 mod 64), chr (128 + ?r mod 64)]"
    unfolding EncodeRune_def MaxRune_def by (simp only: c1 c2 if_False if_True simp_thms)
  then show ?thesis by (simp only: split4 [OF assms(2,3,4)])
qed

lemma Decode_width_one:
  assumes "DecodeRuneInString (c0 # t) = (r, 1)" "\<not> byte c0 < 0x80"
  shows "r = RuneError"
  using assms by (simp add: DecodeRuneInString.simps(2) Let_def split: if_splits)

lemma Decode_second:
  assumes "DecodeRuneInString (c0 # c1 # t) = (r, n)" "n \<noteq> 1" "\<not> byte c0 < 0x80"
  shows "\<not> byte c1 < accept_lo (byte c0) \<and> \<not> accept_hi (byte c0) < byte c1"
  using assms by (auto simp add: DecodeRuneInString.simps(2) Let_def split: if_splits)

lemma Decode_third:
  assumes "DecodeRuneInString (c0 # c1 # c2 # t) = (r, n)" "n \<noteq> 1" "n \<noteq> 2"
  shows "0x80 \<le> byte c2 \<and> byte c2 \<le> 0xBF"
  using assms by (auto simp add: DecodeRuneInString.simps(2) Let_def split: if_splits)

lemma Decode_fourth:
  assumes "DecodeRuneInString (c0 # c1 # c2 # c3 # t) = (r, n)" "n \<noteq> 1" "n \<noteq> 2" "n \<noteq> 3"
  shows "0x80 \<le> byte c3 \<and> byte c3 \<le> 0xBF"
  using assms by (auto simp add: DecodeRuneInString.simps(2) Let_def split: if_splits)

lemma Encode_Decode2:
  assumes d: "DecodeRuneInString (c0 # c1 # t) = (r, n)" and n: "n = 2"
    and s0: "0xC2 \<le> byte c0" "byte c0 < 0xE0"
  shows "EncodeRune r = [c0, c1]"
proof -
  define a where "a = byte c0 - 192"
  define b where "b = byte c1 - 128"
  from s0 have hi: "\<not> byte c0 < 0x80" by simp
  from s0 have acc: "accept_lo (byte c0) = 0x80" "accept_hi (byte c0) = 0xBF"
    by (simp_all add: accept_lo_def accept_hi_def)
  from Decode_second [OF d _ hi] n have s1: "0x80 \<le> byte c1" "byte c1 \<le> 0xBF"
    by (simp_all add: acc)
  from s0 have a: "2 \<le> a" "a < 32" and e0: "byte c0 = 192 + a" by (simp_all add: a_def)
  from s1 have b: "b < 64" and e1: "byte c1 = 128 + b" by (simp_all add: b_def)
  have c0: "c0 = chr (192 + a)" and c1: "c1 = chr (128 + b)"
    using e0 e1 by (simp_all add: char_of_byte)
  from decode2 [OF a b, of t] d have "r = a * 64 + b"
    unfolding c0 c1 by simp
  with Encode2 [OF a b] show ?thesis by (simp only: c0 c1)
qed

lemma Encode_Decode3:
  assumes d: "DecodeRuneInString (c0 # c1 # c2 # t) = (r, n)" and n: "n = 3"
    and s0: "0xE0 \<le> byte c0" "byte c0 < 0xF0"
  shows "EncodeRune r = [c0, c1, c2]"
proof -
  define a where "a = byte c0 - 224"
  define b where "b = byte c1 - 128"
  define c where "c = byte c2 - 128"
  from s0 have hi: "\<not> byte c0 < 0x80" by simp
  from Decode_second [OF d _ hi] n
  have acc: "\<not> byte c1 < accept_lo (byte c0)" "\<not> accept_hi (byte c0) < byte c1" by simp_all
  then have s1: "0x80 \<le> byte c1" "byte c1 \<le> 0xBF"
    by (simp_all add: accept_lo_def accept_hi_def split: if_splits)
  from Decode_third [OF d] n have s2: "0x80 \<le> byte c2" "byte c2 \<le> 0xBF" by simp_all
  from s0 have a: "a < 16" and e0: "byte c0 = 224 + a" by (simp_all add: a_def)
  from s1 have b: "b < 64" and e1: "byte c1 = 128 + b" by (simp_all add: b_def)
  from s2 have c: "c < 64" and e2: "byte c2 = 128 + c" by (simp_all add: c_def)
  have lo: "a = 0 \<longrightarrow> 32 \<le> b"
    using acc(1) by (auto simp add: e0 e1 accept_lo_def)
  have up: "a = 13 \<longrightarrow> b < 32"
    using acc(2) by (auto simp add: e0 e1 accept_hi_def)
  have c0: "c0 = chr (224 + a)" and c1: "c1 = chr (128 + b)" and c2: "c2 = chr (128 + c)"
    using e0 e1 e2 by (simp_all add: char_of_byte)
  from decode3 [OF a b c lo up, of t] d have "r = a * 4096 + b * 64 + c"
    unfolding c0 c1 c2 by simp
  with Encode3 [OF a b c lo up] show ?thesis by (simp only: c0 c1 c2)
qed

lemma Encode_Decode4:
  assumes d: "DecodeRuneInString (c0 # c1 # c2 # c3 # t) = (r, n)" and n: "n = 4"
    and s0: "0xF0 \<le> byte c0" "byte c0 \<le> 0xF4"
  shows "EncodeRune r = [c0, c1, c2, c3]"
proof -
  define a where "a = byte c0 - 240"
  define b where "b = byte c1 - 128"
  define c where "c = byte c2 - 128"
  define e where "e = byte c3 - 128"
  from s0 have hi: "\<not> byte c0 < 0x80" by simp
  from Decode_second [OF d _ hi] n
  have acc: "\<not> byte c1 < accept_lo (byte c0)" "\<not> accept_hi (byte c0) < byte c1" by simp_all
  then have s1: "0x80 \<le> byte c1" "byte c1 \<le> 0xBF"
    by (simp_all add: accept_lo_def accept_hi_def split: if_splits)
  from Decode_third [OF d] n have s2: "0x80 \<le> byte c2" "byte c2 \<le> 0xBF" by simp_all
  from Decode_fourth [OF d] n have s3: "0x80 \<le> byte c3" "byte c3 \<le> 0xBF" by simp_all
  from s0 have a: "a < 5" and e0: "byte c0 = 240 + a" by (simp_all add: a_def)
  from s1 have b: "b < 64" and e1: "byte c1 = 128 + b" by (simp_all add: b_def)
  from s2 have c: "c < 64" and e2: "byte c2 = 128 + c" by (simp_all add: c_def)
  from s3 have e: "e < 64" and e3: "byte c3 = 128 + e" by (simp_all add: e_def)
  have lo: "a = 0 \<longrightarrow> 16 \<le> b"
    using acc(1) by (auto simp add: e0 e1 accept_lo_def)
  have up: "a = 4 \<longrightarrow> b < 16"
    using acc(2) by (auto simp add: e0 e1 accept_hi_def)
  have c0: "c0 = chr (240 + a)" and c1: "c1 = chr (128 + b)" and c2: "c2 = chr (128 + c)"
    and c3: "c3 = chr (128 + e)"
    using e0 e1 e2 e3 by (simp_all add: char_of_byte)
  from decode4 [OF a b c e lo up, of t] d have "r = a * 262144 + b * 4096 + c * 64 + e"
    unfolding c0 c1 c2 c3 by simp
  with Encode4 [OF a b c e lo up] show ?thesis by (simp only: c0 c1 c2 c3)
qed

lemma Encode_Decode:
  assumes d: "DecodeRuneInString (c0 # t) = (r, n)" and ok: "(r, n) \<noteq> (RuneError, 1)"
  shows "EncodeRune r = take n (c0 # t)"
proof (cases "byte c0 < 0x80")
  case True
  with d have "r = byte c0" "n = 1" by (simp_all add: Decode_ascii)
  with True show ?thesis by (simp add: EncodeRune_def)
next
  case False
  have n1: "n \<noteq> 1"
  proof
    assume "n = 1"
    with d False have "r = RuneError" using Decode_width_one [of c0 t r] by simp
    with \<open>n = 1\<close> ok show False by simp
  qed
  from Decode_multi [OF d n1] have n: "n = seq_size (byte c0)" and len: "n \<le> length t + 1"
    and lo: "0xC2 \<le> byte c0" and hi: "byte c0 \<le> 0xF4"
    by simp_all
  consider "byte c0 < 0xE0" | "0xE0 \<le> byte c0" "byte c0 < 0xF0" | "0xF0 \<le> byte c0"
    by linarith
  then show ?thesis
  proof cases
    case 1
    then have n2: "n = 2" by (simp add: n seq_size_def)
    with len obtain c1 t1 where t: "t = c1 # t1" by (cases t) auto
    from Encode_Decode2 [OF d [unfolded t] n2 lo 1] show ?thesis by (simp add: t n2)
  next
    case 2
    then have n3: "n = 3" by (simp add: n seq_size_def)
    with len obtain c1 c2 t2 where t: "t = c1 # c2 # t2"
      by (cases t; cases "tl t") auto
    from Encode_Decode3 [OF d [unfolded t] n3 2] show ?thesis by (simp add: t n3)
  next
    case 3
    then have n4: "n = 4" by (simp add: n seq_size_def)
    with len obtain c1 c2 c3 t3 where t: "t = c1 # c2 # c3 # t3"
      by (cases t; cases "tl t"; cases "tl (tl t)") auto
    from Encode_Decode4 [OF d [unfolded t] n4 3 hi] show ?thesis by (simp add: t n4)
  qed
qed

lemma ValidString_Nil [simp]: "ValidString []"
  by (simp add: ValidString.simps)

lemma ValidString_coerce: "ValidString s \<Longrightarrow> coerce_utf8 s = s"
proof (induction s rule: ValidString.induct)
  case (1 s)
  show ?case
  proof (cases s)
    case Nil
    then show ?thesis by simp
  next
    case (Cons c0 t)
    define r where "r = fst (DecodeRuneInString s)"
    define n where "n = snd (DecodeRuneInString s)"
    have d: "DecodeRuneInString (c0 # t) = (r, n)" by (simp add: r_def n_def Cons)
    from "1.prems" Cons have ok: "DecodeRuneInString s \<noteq> (RuneError, 1)"
      and rest: "ValidString (drop n s)"
      unfolding n_def by (subst (asm) ValidString.simps, simp split: if_splits)+
    from ok d Cons have ok': "(r, n) \<noteq> (RuneError, 1)" by simp
    from "1.IH" [OF _ ok] rest Cons have IH: "coerce_utf8 (drop n s) = drop n s"
      by (simp add: n_def)
    have "coerce_utf8 s = EncodeRune r @ coerce_utf8 (drop n s)"
      using coerce_step [of s] Cons by (simp add: r_def n_def)
    also have "\<dots> = take n s @ drop n s"
      using Encode_Decode [OF d ok'] IH by (simp add: Cons)
    finally show ?thesis by simp
  qed
qed

lemma coerce_ValidString: "ValidString (coerce_utf8 s)"
proof -
  have "list_all valid_rune rs \<Longrightarrow> ValidString (concat (map EncodeRune rs))" for rs
  proof (induction rs)
    case Nil
    then show ?case by simp
  next
    case (Cons r rs)
    let ?X = "concat (map EncodeRune rs)"
    from Cons.prems have v: "valid_rune r" and vs: "list_all valid_rune rs" by simp_all
    have d: "DecodeRuneInString (EncodeRune r @ ?X) = (r, length (EncodeRune r))"
      by (rule DecodeRune_Encode [OF v])
    have l: "r = RuneError \<Longrightarrow> length (EncodeRune r) \<noteq> 1"
      by (simp add: EncodeRune_def RuneError_def MaxRune_def)
    from Cons.IH [OF vs] d l show ?case
      by (subst ValidString.simps) (auto simp add: EncodeRune_nonempty)
  qed
  from this [OF runes_valid] show ?thesis by (simp add: coerce_utf8_def)
qed

lemma ValidString_iff: "ValidString s = (coerce_utf8 s = s)"
  using ValidString_coerce [of s] coerce_ValidString [of s] by auto

lemma ValidString_normalizeStatus:
  "ValidString s \<Longrightarrow> ValidString (normalizeStatus T s)"
  by (simp add: ValidString_iff coerce_normalizeStatus)

subsection \<open>What the reader returns is well formed\<close>

text \<open>
  Every string that \<^verbatim>\<open>unquote\<close> returns is well-formed UTF-8: the strings of a decoded
  document, which is where the program's line items come from, are of this kind.
\<close>

lemma simple_escape_ascii: "simple_escape e = Some ch \<Longrightarrow> byte ch < 0x80"
  by (auto simp add: simple_escape_def dquote_def backslash_def split: if_splits)

lemma unquote_coerce: "unquote s = Some (x, rest) \<Longrightarrow> coerce_utf8 x = x"
proof (induction s arbitrary: x rest rule: unquote.induct)
  case 1
  then show ?case by simp
next
  case (2 c s)
  from "2.prems" show ?case
    apply (subst (asm) unquote.simps(2))
    apply (auto split: if_splits list.splits option.splits prod.splits dest!: prepend_Some)
    subgoal using "2.IH"(1) by (fastforce simp add: coerce_Encode_append)
    subgoal using "2.IH"(2) by (fastforce simp add: coerce_Cons_ascii dest: simple_escape_ascii)
    subgoal using "2.IH"(3) by (fastforce simp add: coerce_Cons_ascii)
    subgoal using "2.IH"(4) by (fastforce simp add: coerce_Encode_append)
    done
qed

lemma unquote_ValidString: "unquote s = Some (x, rest) \<Longrightarrow> ValidString x"
  by (simp add: ValidString_iff unquote_coerce)

lemma ValidString_ascii: "isASCII s \<Longrightarrow> ValidString s"
  by (induction s) (simp_all add: ValidString_iff coerce_Cons_ascii)

lemma ValidString_Operacoes_Normais: "ValidString Operacoes_Normais"
  by (simp add: ValidString_iff Operacoes_Normais_def coerce_Cons_ascii coerce_step
      DecodeRuneInString.simps(2) Let_def seq_size_def accept_lo_def accept_hi_def EncodeRune_def
      char_of_eq_iff)

subsection \<open>Decoding the renderer's document\<close>

lemma Unmarshal_printJSON:
  "Unmarshal T (printJSON T lines) =
    Some \<lparr> out_Code = 200,
           out_Data = map (\<lambda>line. \<lparr> out_Line = formatLineName T (Line line),
                                      out_Status = coerce_utf8 (normalizeStatus T (Status line)) \<rparr>) lines,
           out_Message = ''success'' \<rparr>"
  by (simp add: printJSON_def printJSON_output_eq Unmarshal_document coerce_line_def
      coerce_formatLineName comp_def)

text \<open>
  A status that is not well formed is not read back as it was: the one byte \<^verbatim>\<open>ff\<close> is its
  own normalized status, the renderer writes it as the escape of \<^verbatim>\<open>U+FFFD\<close>, and decoding
  yields the three bytes of \<^verbatim>\<open>U+FFFD\<close>.
\<close>

lemma printJSON_ill_formed_status:
  "\<not> ValidString (Status ill_formed_item)
   \<and> normalizeStatus latin1 (Status ill_formed_item) = [CHR 0xFF]
   \<and> map_option (\<lambda>r. map out_Status (out_Data r)) (Unmarshal latin1 (printJSON latin1 [ill_formed_item]))
       = Some [[CHR 0xEF, CHR 0xBF, CHR 0xBD]]"
proof -
  have n: "normalizeStatus latin1 [CHR 0xFF] = [CHR 0xFF]"
    by (simp add: normalizeStatus_def operacoes_encerradas_def operacoes_normais_def go_eval)
  have c: "coerce_utf8 [CHR 0xFF] = [CHR 0xEF, CHR 0xBF, CHR 0xBD]"
    by (simp add: coerce_utf8_def go_eval)
  from c have v: "\<not> ValidString [CHR 0xFF]" by (simp add: ValidString_iff)
  from n c v show ?thesis
    by (simp add: Unmarshal_printJSON ill_formed_item_def item_def)
qed

text \<open>
  C2: for every list of line items whose statuses are well-formed UTF-8 (as is every
  string of a decoded API response, the only source of the line items that reach the
  renderer), decoding the JSON document of the JSON renderer yields code 200, message
  \<^verbatim>\<open>success\<close> and a data array whose i-th entry has, as line, the formatted name of the
  i-th item and, as status, its normalized status; the row of the table renderer is built
  from the same two transforms.
\<close>

theorem printJSON_roundtrip:
  assumes "\<forall>l \<in> set lines. ValidString (Status l)"
  shows "Unmarshal T (printJSON T lines) =
     Some \<lparr> out_Code = 200,
            out_Data = map (\<lambda>line. \<lparr> out_Line = formatLineName T (Line line),
                                       out_Status = normalizeStatus T (Status line) \<rparr>) lines,
            out_Message = ''success'' \<rparr>
   \<and> table_row T w line =
       pad_right w (formatLineName T (Line line)) @ ''  '' @ getColorForStatus T (StatusColor line)
         @ normalizeStatus T (Status line) @ colorReset @ ''\<newline>''"
proof -
  have "coerce_utf8 (normalizeStatus T (Status l)) = normalizeStatus T (Status l)" if "l \<in> set lines" for l
    using that assms by (simp add: ValidString_iff coerce_normalizeStatus)
  then show ?thesis
    by (simp add: Unmarshal_printJSON table_row_def)
qed

theorem printJSON_roundtrip_witness:
  "list_all (\<lambda>l. ValidString (Status l)) sample_lines
   \<and> Unmarshal latin1 (printJSON latin1 sample_lines) =
       Some \<lparr> out_Code = 200,
              out_Data = [\<lparr> out_Line = ''Azul'', out_Status = Operacao_Normal \<rparr>,
                          \<lparr> out_Line = ''Prata'', out_Status = ''Velocidade Reduzida'' \<rparr>],
              out_Message = ''success'' \<rparr>"
proof -
  have v: "list_all (\<lambda>l. ValidString (Status l)) sample_lines"
    by (simp add: sample_lines_def item_def ValidString_Operacoes_Normais ValidString_ascii)
  have f: "formatLineName latin1 ''Linha 1-Azul'' = ''Azul''"
    "formatLineName latin1 ''Linha 15-Prata'' = ''Prata''"
    by code_simp+
  have n: "normalizeStatus latin1 Operacoes_Normais = Operacao_Normal"
    "normalizeStatus latin1 ''  Velocidade Reduzida '' = ''Velocidade Reduzida''"
    by code_simp+
  from v have "\<forall>l \<in> set sample_lines. ValidString (Status l)" by (simp add: list_all_iff)
  from printJSON_roundtrip [OF this, of latin1] v f n show ?thesis
    by (simp add: sample_lines_def item_def)
qed

end
